theory Spec2Isabelle
  imports Main "HOL-Library.Word"
begin

unbundle bit_operations_syntax

section \<open>Data model\<close>

text \<open>
  The receiver of \<^verbatim>\<open>src/reader.cc\<close>: the frame record the receive loop fills in, the reader
  object with its outgoing queue and receive hook, and the operations on them.
  Pointers that may be null are options (\<open>None\<close> is \<^verbatim>\<open>nullptr\<close>); a function pointer or a
  \<^verbatim>\<open>void *\<close> is an opaque address.
\<close>

type_synonym byte = "8 word"

text \<open>\<^verbatim>\<open>frame_type_t\<close> of \<^verbatim>\<open>frame.hh\<close>.\<close>

datatype frame_type_t = FRAME_TYPE_GENERIC | FRAME_TYPE_OPUS | FRAME_TYPE_HEVC_FU

text \<open>
  \<^verbatim>\<open>rtp_error_t\<close> is declared in a header that is not part of the sources; these are the
  values \<^verbatim>\<open>reader.cc\<close> names.
\<close>

datatype rtp_error_t =
  RTP_OK | RTP_NOT_READY | RTP_INVALID_VALUE | RTP_SOCKET_ERROR | RTP_BIND_ERROR

text \<open>
  The frame, with the fields \<^verbatim>\<open>frame_receiver\<close> writes (\<^verbatim>\<open>marker\<close>, \<^verbatim>\<open>ptype\<close>, \<^verbatim>\<open>seq\<close>,
  \<^verbatim>\<open>timestamp\<close>, \<^verbatim>\<open>ssrc\<close>, \<^verbatim>\<open>data\<close>, \<^verbatim>\<open>payload\<close>, \<^verbatim>\<open>payload_len\<close>, \<^verbatim>\<open>total_len\<close>) and the
  frame type \<^verbatim>\<open>alloc_frame\<close> is called with. \<^verbatim>\<open>data\<close> is the owned buffer; \<^verbatim>\<open>payload\<close> points
  into it and is kept as the offset from \<^verbatim>\<open>data\<close>.
\<close>

record rtp_frame =
  timestamp :: "32 word"
  ssrc :: "32 word"
  seq :: "16 word"
  ptype :: byte
  marker :: byte
  data :: "byte list"
  payload :: nat
  payload_len :: int
  total_len :: int
  frame_type :: frame_type_t

type_synonym frame_ptr = "rtp_frame option"

type_synonym void_ptr = nat

type_synonym hook_fn = nat

text \<open>The bytes a frame's \<^verbatim>\<open>payload\<close> pointer and \<^verbatim>\<open>payload_len\<close> denote.\<close>

definition payload_bytes :: "rtp_frame \<Rightarrow> byte list" where
  "payload_bytes f = take (nat (payload_len f)) (drop (payload f) (data f))"

text \<open>
  What the two threads do to the outgoing queue and its mutex, in program order: the calls
  \<^verbatim>\<open>frames_mtx_.lock()\<close>, \<^verbatim>\<open>frames_mtx_.unlock()\<close>, \<^verbatim>\<open>framesOut_.push_back\<close>,
  \<^verbatim>\<open>framesOut_.front\<close> and \<^verbatim>\<open>framesOut_.erase\<close>.
\<close>

datatype sync_event = Mtx_lock | Mtx_unlock | Queue_push_back | Queue_front | Queue_erase

text \<open>
  The reader object. \<open>active_flag\<close>, \<open>recv_hook_arg\<close>, \<open>recv_hook_fn\<close>, \<open>recv_buffer\<close> and
  \<open>framesOut\<close> are the members \<^verbatim>\<open>active_\<close>, \<^verbatim>\<open>recv_hook_arg_\<close>, \<^verbatim>\<open>recv_hook_\<close>,
  \<^verbatim>\<open>recv_buffer_\<close> and \<^verbatim>\<open>framesOut_\<close>. Two more fields record effects: \<open>hook_calls\<close>
  is the list of calls made to the installed hook (function, argument, frame), and
  \<open>queue_trace\<close> the queue and mutex operations executed so far.
\<close>

record reader =
  active_flag :: bool
  recv_hook_arg :: void_ptr
  recv_hook_fn :: "hook_fn option"
  recv_buffer :: "byte list"
  framesOut :: "frame_ptr list"
  hook_calls :: "(hook_fn \<times> void_ptr \<times> frame_ptr) list"
  queue_trace :: "sync_event list"

section \<open>The reader's operations\<close>

definition active :: "reader \<Rightarrow> bool" where
  "active r = active_flag r"

definition get_recv_buffer :: "reader \<Rightarrow> byte list" where
  "get_recv_buffer r = recv_buffer r"

definition add_outgoing_frame :: "frame_ptr \<Rightarrow> reader \<Rightarrow> reader" where
  "add_outgoing_frame frame r =
     (case frame of
        None \<Rightarrow> r
      | Some f \<Rightarrow> r\<lparr>framesOut := framesOut r @ [frame],
                   queue_trace := queue_trace r @ [Queue_push_back]\<rparr>)"

definition recv_hook_installed :: "reader \<Rightarrow> bool" where
  "recv_hook_installed r = (recv_hook_fn r \<noteq> None)"

definition install_recv_hook :: "void_ptr \<Rightarrow> hook_fn option \<Rightarrow> reader \<Rightarrow> reader" where
  "install_recv_hook arg hook r =
     (case hook of
        None \<Rightarrow> r
      | Some h \<Rightarrow> r\<lparr>recv_hook_fn := hook, recv_hook_arg := arg\<rparr>)"

definition recv_hook :: "frame_ptr \<Rightarrow> reader \<Rightarrow> reader" where
  "recv_hook frame r =
     (case recv_hook_fn r of
        Some h \<Rightarrow> r\<lparr>hook_calls := hook_calls r @ [(h, recv_hook_arg r, frame)]\<rparr>
      | None \<Rightarrow> r)"

subsection \<open>Pulling a frame\<close>

text \<open>
  \<^verbatim>\<open>pull_frame\<close> sleeps 20 ms at a time while the queue is empty and the reader active.
  What happens during a sleep is the work of the other threads: the receive loop adds
  frames, the owner of the reader clears \<^verbatim>\<open>active_\<close> (as the destructor does). The
  argument \<open>sleeps\<close> lists, for each sleep, what the other threads did during it; when the
  list is used up and the caller would sleep again, the result is \<open>Still_waiting\<close>.
  The loop test and the test after the loop read the same state here.
\<close>

datatype other_thread = Loop_adds frame_ptr | Owner_deactivates

fun other_thread_step :: "other_thread \<Rightarrow> reader \<Rightarrow> reader" where
  "other_thread_step (Loop_adds frame) r = add_outgoing_frame frame r"
| "other_thread_step Owner_deactivates r = r\<lparr>active_flag := False\<rparr>"

definition sleep_for :: "other_thread list \<Rightarrow> reader \<Rightarrow> reader" where
  "sleep_for acts r = fold other_thread_step acts r"

datatype pull_result = Returned frame_ptr | Still_waiting

definition take_front :: "frame_ptr \<Rightarrow> frame_ptr list \<Rightarrow> reader \<Rightarrow> pull_result \<times> reader" where
  "take_front nextFrame rest r =
     (Returned nextFrame,
      r\<lparr>framesOut := rest,
        queue_trace := queue_trace r @ [Mtx_lock, Queue_front, Queue_erase, Mtx_unlock]\<rparr>)"

fun pull_frame :: "other_thread list list \<Rightarrow> reader \<Rightarrow> pull_result \<times> reader" where
  "pull_frame [] r =
     (case framesOut r of
        [] \<Rightarrow> if active r then (Still_waiting, r) else (Returned None, r)
      | nextFrame # rest \<Rightarrow>
          if \<not> active r then (Returned None, r) else take_front nextFrame rest r)"
| "pull_frame (s # sleeps) r =
     (case framesOut r of
        [] \<Rightarrow> if active r then pull_frame sleeps (sleep_for s r) else (Returned None, r)
      | nextFrame # rest \<Rightarrow>
          if \<not> active r then (Returned None, r) else take_front nextFrame rest r)"

text \<open>
  A schedule of the producer and the consumer on one queue: the receive loop enqueues a
  frame, or the consumer calls \<^verbatim>\<open>pull_frame\<close>. \<open>run_ops\<close> lists what the pulls returned;
  a pull that finds the queue empty is still waiting and has returned nothing.
\<close>

datatype queue_op = Enqueue frame_ptr | Pull

fun run_ops :: "queue_op list \<Rightarrow> reader \<Rightarrow> frame_ptr list" where
  "run_ops [] r = []"
| "run_ops (Enqueue frame # ops) r = run_ops ops (add_outgoing_frame frame r)"
| "run_ops (Pull # ops) r =
     (case pull_frame [] r of
        (Returned frame, r') \<Rightarrow> frame # run_ops ops r'
      | (Still_waiting, r') \<Rightarrow> run_ops ops r')"

fun enqueued :: "queue_op list \<Rightarrow> frame_ptr list" where
  "enqueued [] = []"
| "enqueued (Enqueue frame # ops) = (if frame = None then enqueued ops else frame # enqueued ops)"
| "enqueued (Pull # ops) = enqueued ops"

text \<open>
  The lock discipline on a trace: every \<^verbatim>\<open>push_back\<close> and every \<^verbatim>\<open>erase\<close> happens while
  the mutex is held. The first argument says whether it is held at the start.
\<close>

fun mutations_locked :: "bool \<Rightarrow> sync_event list \<Rightarrow> bool" where
  "mutations_locked held [] = True"
| "mutations_locked held (Mtx_lock # es) = mutations_locked True es"
| "mutations_locked held (Mtx_unlock # es) = mutations_locked False es"
| "mutations_locked held (Queue_push_back # es) = (held \<and> mutations_locked held es)"
| "mutations_locked held (Queue_erase # es) = (held \<and> mutations_locked held es)"
| "mutations_locked held (Queue_front # es) = mutations_locked held es"

section \<open>The receive loop\<close>

subsection \<open>Constants and helpers that the sources use and do not define\<close>

text \<open>
  The payload types \<^verbatim>\<open>RTP_FORMAT_OPUS\<close>, \<^verbatim>\<open>RTP_FORMAT_HEVC\<close> and \<^verbatim>\<open>RTP_FORMAT_GENERIC\<close>
  that label the cases of the switch in \<^verbatim>\<open>frame_receiver\<close> come from a header that is not
  part of the sources, and the specification gives no values for them: they are a
  parameter of the loop. Case labels of one switch are pairwise different.
\<close>

record rtp_formats =
  RTP_FORMAT_OPUS :: int
  RTP_FORMAT_HEVC :: int
  RTP_FORMAT_GENERIC :: int

definition distinct_formats :: "rtp_formats \<Rightarrow> bool" where
  "distinct_formats fmt =
     distinct [RTP_FORMAT_OPUS fmt, RTP_FORMAT_HEVC fmt, RTP_FORMAT_GENERIC fmt]"

text \<open>
  Modelled from the spec: the macro \<^verbatim>\<open>RTP_HEADER_SIZE\<close>, defined in a header that is not
  part of the sources. The fixed RTP header is 12 bytes (\<^verbatim>\<open>HEADER_SIZE_RTP\<close> in
  \<^verbatim>\<open>frame.hh\<close> has the same value).
\<close>

definition RTP_HEADER_SIZE :: int where
  "RTP_HEADER_SIZE = 12"

text \<open>
  Modelled from the spec: \<^verbatim>\<open>alloc_frame\<close>, declared in \<^verbatim>\<open>frame.hh\<close> and defined in a file
  that is not part of the sources. It returns a frame of the given type or, when the
  allocation fails, no frame; whether it fails is an input (\<open>ok\<close>). The fields of the
  fresh frame are zero until \<^verbatim>\<open>frame_receiver\<close> sets them.
\<close>

definition alloc_frame :: "int \<Rightarrow> frame_type_t \<Rightarrow> bool \<Rightarrow> frame_ptr" where
  "alloc_frame len ft ok =
     (if ok then
        Some \<lparr>timestamp = 0, ssrc = 0, seq = 0, ptype = 0, marker = 0, data = [],
              payload = 0, payload_len = 0, total_len = 0, frame_type = ft\<rparr>
      else None)"

text \<open>
  Reading \<^verbatim>\<open>inbuf[i]\<close>. The buffer \<^verbatim>\<open>start\<close> allocates has 4096 bytes, so the indices 1
  to 11 that the loop reads are inside it; a shorter list reads as 0.
\<close>

definition byte_at :: "byte list \<Rightarrow> nat \<Rightarrow> byte" where
  "byte_at buf i = (if i < length buf then buf ! i else 0)"

text \<open>\<^verbatim>\<open>ntohs\<close> and \<^verbatim>\<open>ntohl\<close> of the bytes at an address: the big-endian value.\<close>

definition ntohs_at :: "byte list \<Rightarrow> nat \<Rightarrow> 16 word" where
  "ntohs_at buf i = push_bit 8 (ucast (byte_at buf i)) OR ucast (byte_at buf (i + 1))"

definition ntohl_at :: "byte list \<Rightarrow> nat \<Rightarrow> 32 word" where
  "ntohl_at buf i =
     push_bit 24 (ucast (byte_at buf i)) OR push_bit 16 (ucast (byte_at buf (i + 1))) OR
     push_bit 8 (ucast (byte_at buf (i + 2))) OR ucast (byte_at buf (i + 3))"

subsection \<open>The format handlers\<close>

text \<open>
  Modelled from the spec: the reassembly context of the HEVC handler (section 3 of the
  specification): the accumulated payload buffer, the NAL header synthesized from the
  first fragment, the last sequence number seen and the started flag. The loop's local
  vector \<^verbatim>\<open>fu\<close>, which only the handlers read and write, holds it: \<open>None\<close> is the empty
  vector, no context being live.
\<close>

record reassembly_context =
  ctx_buffer :: "byte list"
  ctx_nal_header :: "byte list"
  ctx_last_seq :: "16 word"
  ctx_started :: bool

type_synonym fu_state = "reassembly_context option"

text \<open>
  Modelled from the spec: \<^verbatim>\<open>process_generic_frame\<close>, defined in a file that is not part of
  the sources. The Generic handler wraps the bytes after the RTP header as one complete
  frame of type Generic, has no state and always succeeds.
\<close>

definition process_generic_frame :: "rtp_frame \<Rightarrow> fu_state \<Rightarrow> frame_ptr \<times> fu_state \<times> rtp_error_t" where
  "process_generic_frame frame fu = (Some (frame\<lparr>frame_type := FRAME_TYPE_GENERIC\<rparr>), fu, RTP_OK)"

text \<open>
  Modelled from the spec: \<^verbatim>\<open>process_opus_frame\<close>, defined in a file that is not part of the
  sources. The Opus handler has the shape of the Generic one and tags the frame with the
  Opus frame type; the Opus header is a pass-through that changes nothing.
\<close>

definition process_opus_frame :: "rtp_frame \<Rightarrow> fu_state \<Rightarrow> frame_ptr \<times> fu_state \<times> rtp_error_t" where
  "process_opus_frame frame fu = (Some (frame\<lparr>frame_type := FRAME_TYPE_OPUS\<rparr>), fu, RTP_OK)"

text \<open>
  Modelled from the spec: the header fields of the HEVC handler, by the HEVC-over-RTP
  convention the specification refers to. The NAL unit type is bits 1 to 6 of the first
  byte of the two-byte HEVC RTP header, and type 49 is a fragmentation unit. The FU
  header byte has START in bit 7, END in bit 6 and the real NAL type in the low six bits.
  The synthesized NAL header keeps the layer and TID bits of the outer header and puts the
  real NAL type in the place of the type.
\<close>

definition hevc_nal_type :: "byte list \<Rightarrow> byte" where
  "hevc_nal_type p = drop_bit 1 (byte_at p 0) AND 0x3f"

definition NAL_TYPE_FU :: byte where
  "NAL_TYPE_FU = 49"

definition fu_start_bit :: "byte \<Rightarrow> bool" where
  "fu_start_bit h = (h AND 0x80 \<noteq> 0)"

definition fu_end_bit :: "byte \<Rightarrow> bool" where
  "fu_end_bit h = (h AND 0x40 \<noteq> 0)"

definition fu_nal_type :: "byte \<Rightarrow> byte" where
  "fu_nal_type h = h AND 0x3f"

definition synthesized_nal_header :: "byte list \<Rightarrow> byte list" where
  "synthesized_nal_header p =
     [(byte_at p 0 AND 0x81) OR push_bit 1 (fu_nal_type (byte_at p 2)), byte_at p 1]"

text \<open>
  Modelled from the spec: \<^verbatim>\<open>process_hevc_frame\<close>, defined in a file that is not part of the
  sources (section 4.5 of the specification). \<open>p\<close> is the packet without its RTP header.
  A NAL that is not a fragmentation unit is wrapped as one frame. A START fragment
  discards any live context and starts one, seeded with the synthesized NAL header and
  the fragment's bytes after the FU header. A middle fragment needs a live context whose
  last sequence number is the predecessor (modulo \<open>2 ^ 16\<close>) of its own, and appends its
  bytes; otherwise the context is discarded. An END fragment under the same condition
  appends its bytes and turns the buffer into the frame; otherwise there is no frame.
  The specification does not say what happens to a packet too short to hold the headers:
  it is dropped as malformed input.
\<close>

definition process_hevc_frame :: "rtp_frame \<Rightarrow> fu_state \<Rightarrow> frame_ptr \<times> fu_state \<times> rtp_error_t" where
  "process_hevc_frame frame fu =
     (let p = payload_bytes frame in
      if length p < 2 then (None, fu, RTP_INVALID_VALUE)
      else if hevc_nal_type p \<noteq> NAL_TYPE_FU then
        (Some (frame\<lparr>frame_type := FRAME_TYPE_HEVC_FU\<rparr>), fu, RTP_OK)
      else if length p < 3 then (None, fu, RTP_INVALID_VALUE)
      else
        let h = byte_at p 2; body = drop 3 p in
        if fu_start_bit h then
          (None,
           Some \<lparr>ctx_buffer = synthesized_nal_header p @ body,
                 ctx_nal_header = synthesized_nal_header p,
                 ctx_last_seq = seq frame, ctx_started = True\<rparr>,
           RTP_NOT_READY)
        else
          (case fu of
             None \<Rightarrow> (None, None, if fu_end_bit h then RTP_NOT_READY else RTP_INVALID_VALUE)
           | Some c \<Rightarrow>
               if seq frame \<noteq> ctx_last_seq c + 1 then
                 (None, None, if fu_end_bit h then RTP_NOT_READY else RTP_INVALID_VALUE)
               else if \<not> fu_end_bit h then
                 (None, Some (c\<lparr>ctx_buffer := ctx_buffer c @ body, ctx_last_seq := seq frame\<rparr>),
                  RTP_NOT_READY)
               else
                 (Some (frame\<lparr>data := ctx_buffer c @ body, payload := 0,
                              payload_len := int (length (ctx_buffer c @ body)),
                              total_len := int (length (ctx_buffer c @ body)),
                              frame_type := FRAME_TYPE_HEVC_FU\<rparr>),
                  None, RTP_OK)))"

subsection \<open>One iteration\<close>

text \<open>
  \<^verbatim>\<open>recvfrom\<close> on success writes the datagram at the start of the reused receive buffer and
  returns its length; the bytes behind it stay what they were. The datagram is what the
  call wrote, at most \<^verbatim>\<open>recv_buffer_len_\<close> bytes, and is taken to fit the buffer.
\<close>

definition recvfrom :: "byte list \<Rightarrow> reader \<Rightarrow> reader" where
  "recvfrom dgram r = r\<lparr>recv_buffer := dgram @ drop (length dgram) (recv_buffer r)\<rparr>"

text \<open>The header fields, read from the receive buffer (lines 177 to 181).\<close>

definition parse_rtp_header :: "byte list \<Rightarrow> rtp_frame \<Rightarrow> rtp_frame" where
  "parse_rtp_header inbuf frame =
     frame\<lparr>marker := (if byte_at inbuf 1 AND 0x80 \<noteq> 0 then 1 else 0),
           ptype := byte_at inbuf 1 AND 0x7f,
           seq := ntohs_at inbuf 2,
           timestamp := ntohl_at inbuf 4,
           ssrc := ntohl_at inbuf 8\<rparr>"

text \<open>The switch on the payload type (lines 200 to 217), cases in the order of the source.\<close>

definition dispatch :: "rtp_formats \<Rightarrow> rtp_frame \<Rightarrow> fu_state \<Rightarrow> frame_ptr \<times> fu_state \<times> rtp_error_t" where
  "dispatch fmt frame fu =
     (if uint (ptype frame) = RTP_FORMAT_OPUS fmt then process_opus_frame frame fu
      else if uint (ptype frame) = RTP_FORMAT_HEVC fmt then process_hevc_frame frame fu
      else if uint (ptype frame) = RTP_FORMAT_GENERIC fmt then process_generic_frame frame fu
      else (Some frame, fu, RTP_INVALID_VALUE))"

text \<open>
  What the loop does with the handler's result (lines 219 to 230): on \<^verbatim>\<open>RTP_OK\<close> the frame
  goes to the hook if one is installed and to the outgoing queue otherwise; on any other
  value there is only a log line.
\<close>

definition deliver :: "frame_ptr \<Rightarrow> rtp_error_t \<Rightarrow> reader \<Rightarrow> reader" where
  "deliver frame err r =
     (if err = RTP_OK then
        (if recv_hook_installed r then recv_hook frame r else add_outgoing_frame frame r)
      else r)"

text \<open>
  The body of the loop for a datagram of \<open>ret = length dgram\<close> bytes (lines 167 to 230).
  \<open>alloc_ok\<close> and \<open>data_ok\<close> say whether \<^verbatim>\<open>alloc_frame\<close> and \<^verbatim>\<open>new uint8_t[ret]\<close> succeed.
  Every \<^verbatim>\<open>continue\<close> leaves the reader and \<^verbatim>\<open>fu\<close> as they are. The variable \<^verbatim>\<open>err\<close> is
  written by the switch in every iteration that reaches line 219, so it is the third
  component of the result of \<open>dispatch\<close>.
\<close>

definition loop_body :: "rtp_formats \<Rightarrow> byte list \<Rightarrow> bool \<Rightarrow> bool \<Rightarrow> reader \<times> fu_state \<Rightarrow> reader \<times> fu_state" where
  "loop_body fmt dgram alloc_ok data_ok s =
     (let r = recvfrom dgram (fst s);
          fu = snd s;
          ret = int (length dgram);
          inbuf = get_recv_buffer r
      in case alloc_frame ret FRAME_TYPE_GENERIC alloc_ok of
           None \<Rightarrow> (r, fu)
         | Some frame0 \<Rightarrow>
             let frame1 = parse_rtp_header inbuf frame0 in
             if ret - RTP_HEADER_SIZE \<le> 0 then (r, fu)
             else if \<not> data_ok then (r, fu)
             else
               let frame2 = frame1\<lparr>data := take (nat ret) inbuf,
                                   payload := nat RTP_HEADER_SIZE,
                                   payload_len := ret - RTP_HEADER_SIZE,
                                   total_len := ret\<rparr>;
                   res = dispatch fmt frame2 fu
               in (deliver (fst res) (snd (snd res)) r, fst (snd res)))"

subsection \<open>The loop\<close>

text \<open>
  One entry per call of \<^verbatim>\<open>recvfrom\<close>: it returns \<open>-1\<close> with an error number, or it returns
  a datagram (with the outcome of the two allocations of that iteration). The loop runs
  over the calls listed; when they are used up the loop is blocked in \<^verbatim>\<open>recvfrom\<close>.
  \<open>Loop_returned\<close> is the \<^verbatim>\<open>return\<close> of line 165, \<open>Loop_exited\<close> the end of the function
  after the \<^verbatim>\<open>while\<close> test fails.
\<close>

datatype recv_call = Recv_error int | Recv_datagram "byte list" bool bool

datatype loop_exit = Loop_returned | Loop_exited | Blocked_in_recvfrom

fun receiver_loop :: "rtp_formats \<Rightarrow> recv_call list \<Rightarrow> reader \<times> fu_state \<Rightarrow> loop_exit \<times> reader \<times> fu_state" where
  "receiver_loop fmt [] s =
     (if active (fst s) then (Blocked_in_recvfrom, s) else (Loop_exited, s))"
| "receiver_loop fmt (Recv_error errno # calls) s =
     (if active (fst s) then (Loop_returned, s) else (Loop_exited, s))"
| "receiver_loop fmt (Recv_datagram dgram alloc_ok data_ok # calls) s =
     (if active (fst s) then receiver_loop fmt calls (loop_body fmt dgram alloc_ok data_ok s)
      else (Loop_exited, s))"

text \<open>\<^verbatim>\<open>frame_receiver\<close>: the loop, started with an empty \<^verbatim>\<open>fu\<close>.\<close>

definition frame_receiver :: "rtp_formats \<Rightarrow> recv_call list \<Rightarrow> reader \<Rightarrow> loop_exit \<times> reader" where
  "frame_receiver fmt calls r =
     (let res = receiver_loop fmt calls (r, None) in (fst res, fst (snd res)))"

text \<open>
  The frames handed to the application between two states of a reader: calls of the
  installed hook in hook mode, new entries at the back of the outgoing queue otherwise.
\<close>

definition hands_over :: "reader \<Rightarrow> frame_ptr list \<Rightarrow> reader \<Rightarrow> bool" where
  "hands_over r frames r' =
     (case recv_hook_fn r of
        Some h \<Rightarrow> hook_calls r' = hook_calls r @ map (\<lambda>f. (h, recv_hook_arg r, f)) frames
                   \<and> framesOut r' = framesOut r
      | None \<Rightarrow> framesOut r' = framesOut r @ frames \<and> hook_calls r' = hook_calls r)"

section \<open>Concrete readers, frames and datagrams\<close>

text \<open>A started reader in queue mode, with nothing received yet.\<close>

definition idle_reader :: reader where
  "idle_reader =
     \<lparr>active_flag = True, recv_hook_arg = 0, recv_hook_fn = None, recv_buffer = replicate 4096 0,
      framesOut = [], hook_calls = [], queue_trace = []\<rparr>"

text \<open>The frame the loop builds from a datagram with all header fields zero.\<close>

definition frame_of :: "byte list \<Rightarrow> rtp_frame" where
  "frame_of bs =
     \<lparr>timestamp = 0, ssrc = 0, seq = 0, ptype = 0, marker = 0, data = bs,
      payload = 12, payload_len = int (length bs) - 12, total_len = int (length bs),
      frame_type = FRAME_TYPE_GENERIC\<rparr>"

section \<open>Observations used in the statements\<close>

text \<open>
  The payload type the loop reads for a datagram: the low seven bits of the second byte of
  the receive buffer after \<^verbatim>\<open>recvfrom\<close>. \<open>rtp_ptype\<close> and \<open>rtp_seq\<close> are the payload type
  and the sequence number as the datagram itself carries them.
\<close>

definition received_ptype :: "byte list \<Rightarrow> reader \<Rightarrow> byte" where
  "received_ptype dgram r = byte_at (get_recv_buffer (recvfrom dgram r)) 1 AND 0x7f"

definition rtp_ptype :: "byte list \<Rightarrow> byte" where
  "rtp_ptype dgram = byte_at dgram 1 AND 0x7f"

definition rtp_seq :: "byte list \<Rightarrow> 16 word" where
  "rtp_seq dgram = ntohs_at dgram 2"

text \<open>
  Every frame handed to the application so far, by a hook call or through the queue, and
  what the data model asks of such a frame: it exists, its payload length is above zero
  and it has payload bytes.
\<close>

definition handed_frames :: "reader \<Rightarrow> frame_ptr list" where
  "handed_frames r = map (\<lambda>c. snd (snd c)) (hook_calls r) @ framesOut r"

definition positive_payload :: "frame_ptr \<Rightarrow> bool" where
  "positive_payload p =
     (case p of None \<Rightarrow> False | Some f \<Rightarrow> 0 < payload_len f \<and> payload_bytes f \<noteq> [])"

text \<open>
  Values for the examples: payload types as RTP profiles commonly assign them, and two
  error numbers of \<^verbatim>\<open>recvfrom\<close>, would-block and connection refused.
\<close>

definition example_formats :: rtp_formats where
  "example_formats = \<lparr>RTP_FORMAT_OPUS = 97, RTP_FORMAT_HEVC = 96, RTP_FORMAT_GENERIC = 0\<rparr>"

definition EWOULDBLOCK :: int where
  "EWOULDBLOCK = 11"

definition ECONNREFUSED :: int where
  "ECONNREFUSED = 111"

text \<open>The frame the loop has built when it reaches the switch (line 198).\<close>

definition frame_read :: "byte list \<Rightarrow> reader \<Rightarrow> rtp_frame" where
  "frame_read dgram r =
     (let inbuf = get_recv_buffer (recvfrom dgram r) in
      \<lparr>timestamp = ntohl_at inbuf 4, ssrc = ntohl_at inbuf 8, seq = ntohs_at inbuf 2,
       ptype = byte_at inbuf 1 AND 0x7f,
       marker = (if byte_at inbuf 1 AND 0x80 \<noteq> 0 then 1 else 0),
       data = take (length dgram) inbuf, payload = 12,
       payload_len = int (length dgram) - 12, total_len = int (length dgram),
       frame_type = FRAME_TYPE_GENERIC\<rparr>)"

text \<open>
  HEVC fragments as datagrams: the FU header is the byte after the 12-byte RTP header and
  the two-byte HEVC RTP header, and the fragment's payload is what follows it.
\<close>

definition fu_header :: "byte list \<Rightarrow> byte" where
  "fu_header dgram = byte_at dgram 14"

definition fu_payload :: "byte list \<Rightarrow> byte list" where
  "fu_payload dgram = drop 15 dgram"

definition is_fu_packet :: "rtp_formats \<Rightarrow> byte list \<Rightarrow> bool" where
  "is_fu_packet fmt dgram =
     (15 \<le> length dgram \<and> uint (rtp_ptype dgram) = RTP_FORMAT_HEVC fmt \<and>
      hevc_nal_type (drop 12 dgram) = NAL_TYPE_FU)"

definition fu_START :: "rtp_formats \<Rightarrow> byte list \<Rightarrow> bool" where
  "fu_START fmt dgram = (is_fu_packet fmt dgram \<and> fu_start_bit (fu_header dgram))"

definition fu_MIDDLE :: "rtp_formats \<Rightarrow> byte list \<Rightarrow> bool" where
  "fu_MIDDLE fmt dgram =
     (is_fu_packet fmt dgram \<and> \<not> fu_start_bit (fu_header dgram) \<and> \<not> fu_end_bit (fu_header dgram))"

definition fu_END :: "rtp_formats \<Rightarrow> byte list \<Rightarrow> bool" where
  "fu_END fmt dgram =
     (is_fu_packet fmt dgram \<and> \<not> fu_start_bit (fu_header dgram) \<and> fu_end_bit (fu_header dgram))"

text \<open>Each sequence number is the successor, modulo \<open>2 ^ 16\<close>, of the one before.\<close>

fun consecutive :: "16 word list \<Rightarrow> bool" where
  "consecutive (a # b # xs) = (b = a + 1 \<and> consecutive (b # xs))"
| "consecutive xs = True"

text \<open>A datagram arrives and both allocations of its iteration succeed.\<close>

definition arrives :: "byte list \<Rightarrow> recv_call" where
  "arrives dgram = Recv_datagram dgram True True"

text \<open>
  A fragment with sequence number \<open>n\<close> below 256, FU header \<open>h\<close> and payload \<open>body\<close>:
  payload type 96, HEVC RTP header of NAL type 49 with TID 1.
\<close>

definition fu_packet :: "byte \<Rightarrow> byte \<Rightarrow> byte list \<Rightarrow> byte list" where
  "fu_packet n h body = [0x80, 96, 0, n, 0, 0, 0, 0, 0, 0, 0, 0, 0x62, 0x01, h] @ body"

text \<open>
  A datagram with payload type \<open>pt\<close>, sequence number 1 and the payload \<open>body\<close>.
\<close>

definition rtp_packet :: "byte \<Rightarrow> byte list \<Rightarrow> byte list" where
  "rtp_packet pt body = [0x80, pt, 0, 1, 0, 0, 0, 0, 0, 0, 0, 0] @ body"

text \<open>The buffer of a live reassembly context starts with the NAL header, so it is not empty.\<close>

definition ctx_ok :: "fu_state \<Rightarrow> bool" where
  "ctx_ok fu = (case fu of None \<Rightarrow> True | Some c \<Rightarrow> ctx_buffer c \<noteq> [])"

text \<open>A call of \<^verbatim>\<open>recvfrom\<close> that returned a datagram.\<close>

fun is_datagram :: "recv_call \<Rightarrow> bool" where
  "is_datagram (Recv_datagram dgram alloc_ok data_ok) = True"
| "is_datagram (Recv_error errno) = False"

section \<open>Properties\<close>

subsection \<open>The receive hook\<close>

text \<open>
  C9. \<^verbatim>\<open>install_recv_hook\<close> with a null function pointer leaves the reader as it was, so a
  hook installed before and its argument stay in effect. With a function pointer that is
  not null, the hook and the argument are both recorded, and neither the queue nor the
  active flag changes.
\<close>

theorem install_recv_hook_null_keeps_state:
  "install_recv_hook arg None r = r \<and>
   recv_hook_fn (install_recv_hook arg (Some h) r) = Some h \<and>
   recv_hook_arg (install_recv_hook arg (Some h) r) = arg \<and>
   recv_hook_installed (install_recv_hook arg (Some h) r) \<and>
   framesOut (install_recv_hook arg (Some h) r) = framesOut r \<and>
   active (install_recv_hook arg (Some h) r) = active r"
  by (simp add: install_recv_hook_def recv_hook_installed_def active_def)

subsection \<open>Null frames and the outgoing queue\<close>

lemma add_outgoing_frame_null_free:
  "None \<notin> set (framesOut r) \<Longrightarrow> None \<notin> set (framesOut (add_outgoing_frame frame r))"
  by (cases frame) (simp_all add: add_outgoing_frame_def)

lemma add_outgoing_frame_active [simp]:
  "active (add_outgoing_frame frame r) = active r"
  by (cases frame) (simp_all add: add_outgoing_frame_def active_def)

lemma sleep_for_adds_only:
  "Owner_deactivates \<notin> set s \<Longrightarrow> None \<notin> set (framesOut r) \<Longrightarrow>
   None \<notin> set (framesOut (sleep_for s r)) \<and> active (sleep_for s r) = active r"
  unfolding sleep_for_def
proof (induction s arbitrary: r)
  case Nil
  then show ?case by simp
next
  case (Cons a s)
  then obtain frame where a: "a = Loop_adds frame"
    by (cases a) auto
  have "None \<notin> set (framesOut (add_outgoing_frame frame r))"
    using Cons.prems(2) by (rule add_outgoing_frame_null_free)
  with Cons.IH [of "add_outgoing_frame frame r"] Cons.prems(1) a show ?case
    by simp
qed

lemma pull_frame_never_null:
  "None \<notin> set (framesOut r) \<Longrightarrow> active r \<Longrightarrow> \<forall>s \<in> set sleeps. Owner_deactivates \<notin> set s \<Longrightarrow>
   fst (pull_frame sleeps r) \<noteq> Returned None"
proof (induction sleeps arbitrary: r)
  case Nil
  show ?case
  proof (cases "framesOut r")
    case Nil
    with \<open>active r\<close> show ?thesis by simp
  next
    case (Cons f fs)
    with Nil.prems have "f \<noteq> None" by (cases f) simp_all
    with Cons Nil.prems show ?thesis
      by (simp add: take_front_def)
  qed
next
  case (Cons s sleeps)
  show ?case
  proof (cases "framesOut r")
    case Nil
    have "None \<notin> set (framesOut (sleep_for s r)) \<and> active (sleep_for s r) = active r"
      using Cons.prems by (intro sleep_for_adds_only) auto
    with Cons.IH [of "sleep_for s r"] Cons.prems Nil show ?thesis
      by simp
  next
    case (Cons f fs)
    with Cons.prems have "f \<noteq> None" by (cases f) simp_all
    with Cons Cons.prems show ?thesis
      by (simp add: take_front_def)
  qed
qed

text \<open>
  C10. \<^verbatim>\<open>add_outgoing_frame\<close> with a null frame changes nothing: the reader, and with it
  the queue's contents and length, is the same afterwards. A queue without a null entry
  has none after any \<^verbatim>\<open>add_outgoing_frame\<close>, and a \<^verbatim>\<open>pull_frame\<close> on an active reader with
  such a queue, while the other threads only add frames (null or not), does not return
  null.
\<close>

theorem add_outgoing_frame_null_noop:
  "add_outgoing_frame None r = r \<and>
   (None \<notin> set (framesOut r) \<longrightarrow> None \<notin> set (framesOut (add_outgoing_frame frame r))) \<and>
   (None \<notin> set (framesOut r) \<and> active r \<and> (\<forall>s \<in> set sleeps. Owner_deactivates \<notin> set s) \<longrightarrow>
      fst (pull_frame sleeps (add_outgoing_frame None r)) \<noteq> Returned None)"
proof -
  have n: "add_outgoing_frame None r = r"
    by (simp add: add_outgoing_frame_def)
  show ?thesis
    using n add_outgoing_frame_null_free [of r frame] pull_frame_never_null [of r sleeps]
    by simp
qed

theorem add_outgoing_frame_null_noop_witness:
  "add_outgoing_frame None (add_outgoing_frame (Some (frame_of [])) idle_reader)
     = add_outgoing_frame (Some (frame_of [])) idle_reader \<and>
   framesOut (add_outgoing_frame (Some (frame_of [])) idle_reader) = [Some (frame_of [])] \<and>
   fst (pull_frame [[Loop_adds None]]
         (add_outgoing_frame None (add_outgoing_frame (Some (frame_of [])) idle_reader)))
     = Returned (Some (frame_of []))"
  using add_outgoing_frame_null_noop
    [of "add_outgoing_frame (Some (frame_of [])) idle_reader" None "[[Loop_adds None]]"]
  by (simp add: add_outgoing_frame_def idle_reader_def active_def take_front_def)

subsection \<open>Pulling from the queue\<close>

lemma sleep_for_Nil [simp]: "sleep_for [] r = r"
  by (simp add: sleep_for_def)

lemma pull_frame_inactive: "\<not> active r \<Longrightarrow> pull_frame sleeps r = (Returned None, r)"
  by (cases sleeps; cases "framesOut r") simp_all

lemma pull_frame_idle_sleeps:
  "active r \<Longrightarrow> framesOut r = [] \<Longrightarrow> pull_frame (replicate n [] @ sleeps) r = pull_frame sleeps r"
  by (induction n) simp_all

lemma pull_frame_head:
  "pull_frame sleeps r = (Returned frame, r') \<Longrightarrow>
   (\<not> active r' \<and> frame = None) \<or>
   (\<exists>n \<le> length sleeps.
      active (fold sleep_for (take n sleeps) r) \<and>
      framesOut (fold sleep_for (take n sleeps) r) = frame # framesOut r')"
proof (induction sleeps arbitrary: r)
  case Nil
  then show ?case
    by (cases "framesOut r") (auto simp: take_front_def active_def split: if_splits)
next
  case (Cons s sleeps)
  show ?case
  proof (cases "framesOut r = [] \<and> active r")
    case True
    with Cons.prems have "pull_frame sleeps (sleep_for s r) = (Returned frame, r')"
      by simp
    from Cons.IH [OF this] show ?thesis
    proof
      assume "\<not> active r' \<and> frame = None"
      then show ?thesis by simp
    next
      assume "\<exists>n \<le> length sleeps.
        active (fold sleep_for (take n sleeps) (sleep_for s r)) \<and>
        framesOut (fold sleep_for (take n sleeps) (sleep_for s r)) = frame # framesOut r'"
      then obtain n where n: "n \<le> length sleeps"
        "active (fold sleep_for (take n sleeps) (sleep_for s r))"
        "framesOut (fold sleep_for (take n sleeps) (sleep_for s r)) = frame # framesOut r'"
        by blast
      then have "Suc n \<le> length (s # sleeps) \<and>
        active (fold sleep_for (take (Suc n) (s # sleeps)) r) \<and>
        framesOut (fold sleep_for (take (Suc n) (s # sleeps)) r) = frame # framesOut r'"
        by simp
      then show ?thesis by blast
    qed
  next
    case False
    with Cons.prems have "(\<not> active r' \<and> frame = None) \<or>
      (active (fold sleep_for (take 0 (s # sleeps)) r) \<and>
       framesOut (fold sleep_for (take 0 (s # sleeps)) r) = frame # framesOut r')"
      by (cases "framesOut r") (auto simp: take_front_def active_def split: if_splits)
    then show ?thesis by blast
  qed
qed

text \<open>
  C6. \<^verbatim>\<open>pull_frame\<close> on an inactive reader returns null at once, whatever the queue holds.
  On an active reader with an empty queue it is still waiting after any number of sleeps
  during which nothing happened; when the reader is deactivated during a later sleep it
  returns null, and when the receive loop adds a frame during a later sleep it returns
  that frame. Whenever it returns, either the reader is inactive and the result is null, or
  the result was at the front of the queue of the active reader at the moment of the
  return, after some of the sleeps.
\<close>

theorem pull_frame_waits_or_returns:
  "(\<not> active r \<longrightarrow> pull_frame sleeps r = (Returned None, r)) \<and>
   (active r \<and> framesOut r = [] \<longrightarrow>
      pull_frame (replicate n []) r = (Still_waiting, r) \<and>
      pull_frame (replicate n [] @ [Owner_deactivates] # sleeps) r
        = (Returned None, r\<lparr>active_flag := False\<rparr>) \<and>
      pull_frame (replicate n [] @ [Loop_adds (Some f)] # sleeps) r
        = take_front (Some f) [] (add_outgoing_frame (Some f) r)) \<and>
   (pull_frame sleeps r = (Returned frame, r') \<longrightarrow>
      (\<not> active r' \<and> frame = None) \<or>
      (\<exists>k \<le> length sleeps.
         active (fold sleep_for (take k sleeps) r) \<and>
         framesOut (fold sleep_for (take k sleeps) r) = frame # framesOut r'))"
proof -
  have a: "\<not> active r \<Longrightarrow> pull_frame sleeps r = (Returned None, r)"
    by (rule pull_frame_inactive)
  have b: "pull_frame (replicate n []) r = (Still_waiting, r)"
    if "active r" "framesOut r = []"
    using pull_frame_idle_sleeps [OF that, of n "[]"] that by simp
  have c: "pull_frame (replicate n [] @ [Owner_deactivates] # sleeps) r
        = (Returned None, r\<lparr>active_flag := False\<rparr>)"
    if "active r" "framesOut r = []"
    using pull_frame_idle_sleeps [OF that, of n "[Owner_deactivates] # sleeps"] that
    by (simp add: sleep_for_def pull_frame_inactive active_def)
  have d: "pull_frame (replicate n [] @ [Loop_adds (Some f)] # sleeps) r
        = take_front (Some f) [] (add_outgoing_frame (Some f) r)"
    if "active r" "framesOut r = []"
    using pull_frame_idle_sleeps [OF that, of n "[Loop_adds (Some f)] # sleeps"] that
    by (cases sleeps) (simp_all add: sleep_for_def add_outgoing_frame_def active_def)
  show ?thesis
    using a b c d pull_frame_head [of sleeps r frame r'] by blast
qed

theorem pull_frame_waits_or_returns_witness:
  "active idle_reader \<and> framesOut idle_reader = [] \<and>
   pull_frame (replicate 3 []) idle_reader = (Still_waiting, idle_reader) \<and>
   pull_frame (replicate 3 [] @ [Owner_deactivates] # [])  idle_reader
     = (Returned None, idle_reader\<lparr>active_flag := False\<rparr>) \<and>
   pull_frame (replicate 3 [] @ [Loop_adds (Some (frame_of []))] # []) idle_reader
     = take_front (Some (frame_of [])) [] (add_outgoing_frame (Some (frame_of [])) idle_reader) \<and>
   \<not> active (idle_reader\<lparr>active_flag := False\<rparr>) \<and>
   pull_frame [] (idle_reader\<lparr>active_flag := False\<rparr>)
     = (Returned None, idle_reader\<lparr>active_flag := False\<rparr>) \<and>
   pull_frame [[Loop_adds (Some (frame_of []))]] idle_reader
     = (Returned (Some (frame_of [])),
        idle_reader\<lparr>queue_trace := [Queue_push_back, Mtx_lock, Queue_front, Queue_erase, Mtx_unlock]\<rparr>) \<and>
   (\<exists>k \<le> length [[Loop_adds (Some (frame_of []))]].
      active (fold sleep_for (take k [[Loop_adds (Some (frame_of []))]]) idle_reader) \<and>
      framesOut (fold sleep_for (take k [[Loop_adds (Some (frame_of []))]]) idle_reader)
        = Some (frame_of []) #
          framesOut (idle_reader\<lparr>queue_trace := [Queue_push_back, Mtx_lock, Queue_front, Queue_erase, Mtx_unlock]\<rparr>))"
proof -
  have p: "pull_frame [[Loop_adds (Some (frame_of []))]] idle_reader
     = (Returned (Some (frame_of [])),
        idle_reader\<lparr>queue_trace := [Queue_push_back, Mtx_lock, Queue_front, Queue_erase, Mtx_unlock]\<rparr>)"
    by (simp add: idle_reader_def active_def sleep_for_def add_outgoing_frame_def take_front_def)
  have q: "active (idle_reader\<lparr>queue_trace := [Queue_push_back, Mtx_lock, Queue_front, Queue_erase, Mtx_unlock]\<rparr>)"
    by (simp add: idle_reader_def active_def)
  show ?thesis
    using pull_frame_waits_or_returns [of idle_reader "[]" 3 "frame_of []"]
      pull_frame_waits_or_returns [of "idle_reader\<lparr>active_flag := False\<rparr>" "[]" 3 "frame_of []"]
      pull_frame_waits_or_returns [of idle_reader "[[Loop_adds (Some (frame_of []))]]" 0 "frame_of []"
        "Some (frame_of [])"
        "idle_reader\<lparr>queue_trace := [Queue_push_back, Mtx_lock, Queue_front, Queue_erase, Mtx_unlock]\<rparr>"]
      p q
    by (simp add: idle_reader_def active_def)
qed

subsection \<open>Order of delivery in queue mode\<close>

lemma pull_frame_now:
  "active r \<Longrightarrow> pull_frame [] r =
     (case framesOut r of [] \<Rightarrow> (Still_waiting, r) | f # fs \<Rightarrow> take_front f fs r)"
  by (cases "framesOut r") simp_all

lemma run_ops_prefix:
  "active r \<Longrightarrow>
   run_ops ops r = take (length (run_ops ops r)) (framesOut r @ enqueued ops)"
proof (induction ops arbitrary: r)
  case Nil
  then show ?case by simp
next
  case (Cons op ops)
  show ?case
  proof (cases op)
    case (Enqueue frame)
    have act: "active (add_outgoing_frame frame r)"
      using Cons.prems by simp
    show ?thesis
      using Cons.IH [OF act] Enqueue
      by (cases frame) (simp_all add: add_outgoing_frame_def)
  next
    case Pull
    show ?thesis
    proof (cases "framesOut r")
      case Nil
      with Cons.IH [OF Cons.prems] Cons.prems Pull show ?thesis
        by (simp add: pull_frame_now)
    next
      case (Cons f fs)
      let ?r' = "r\<lparr>framesOut := fs,
        queue_trace := queue_trace r @ [Mtx_lock, Queue_front, Queue_erase, Mtx_unlock]\<rparr>"
      have act: "active ?r'"
        using Cons.prems by (simp add: active_def)
      have "run_ops (op # ops) r = f # run_ops ops ?r'"
        using Pull Cons Cons.prems by (simp add: pull_frame_now take_front_def)
      with Cons.IH [OF act] Cons Pull show ?thesis
        by simp
    qed
  qed
qed

lemma run_ops_enqueue_all:
  "run_ops (map Enqueue fs @ ops) r = run_ops ops (fold add_outgoing_frame fs r)"
  by (induction fs arbitrary: r) simp_all

lemma fold_add_outgoing_frame:
  "None \<notin> set fs \<Longrightarrow>
   framesOut (fold add_outgoing_frame fs r) = framesOut r @ fs \<and>
   active (fold add_outgoing_frame fs r) = active r"
proof (induction fs arbitrary: r)
  case Nil
  then show ?case by simp
next
  case (Cons f fs)
  then obtain g where "f = Some g" by (cases f) auto
  with Cons.IH [of "add_outgoing_frame f r"] Cons.prems show ?case
    by (simp add: add_outgoing_frame_def active_def)
qed

lemma run_ops_pull_all:
  "active r \<Longrightarrow> run_ops (replicate (length (framesOut r)) Pull) r = framesOut r"
proof (induction "framesOut r" arbitrary: r)
  case Nil
  then show ?case by simp
next
  case (Cons f fs)
  let ?r' = "r\<lparr>framesOut := fs,
    queue_trace := queue_trace r @ [Mtx_lock, Queue_front, Queue_erase, Mtx_unlock]\<rparr>"
  have "fs = framesOut ?r'" "active ?r'"
    using Cons.prems by (simp_all add: active_def)
  from Cons.hyps(1) [OF this] Cons.hyps(2) [symmetric] Cons.prems show ?case
    by (simp add: pull_frame_now take_front_def)
qed

text \<open>
  C7. On an active reader, in every schedule of enqueues by the receive loop and pulls by
  the consumer, the frames the pulls return are, in order, the first frames of the queue's
  initial contents followed by the frames enqueued (null frames are never enqueued). In
  particular, when frames are enqueued on an empty queue and then pulled as many times,
  the pulls return exactly these frames in the order of their enqueueing.
\<close>

theorem queue_delivery_is_fifo:
  "active r \<longrightarrow>
     run_ops ops r = take (length (run_ops ops r)) (framesOut r @ enqueued ops) \<and>
     (framesOut r = [] \<and> None \<notin> set fs \<longrightarrow>
        run_ops (map Enqueue fs @ replicate (length fs) Pull) r = fs)"
proof
  assume act: "active r"
  have "run_ops (map Enqueue fs @ replicate (length fs) Pull) r = fs"
    if "framesOut r = []" "None \<notin> set fs"
  proof -
    have q: "framesOut (fold add_outgoing_frame fs r) = fs" "active (fold add_outgoing_frame fs r)"
      using fold_add_outgoing_frame [OF that(2), of r] that(1) act by simp_all
    show ?thesis
      using run_ops_pull_all [OF q(2)] q(1) by (simp add: run_ops_enqueue_all)
  qed
  with run_ops_prefix [OF act, of ops]
  show "run_ops ops r = take (length (run_ops ops r)) (framesOut r @ enqueued ops) \<and>
     (framesOut r = [] \<and> None \<notin> set fs \<longrightarrow>
        run_ops (map Enqueue fs @ replicate (length fs) Pull) r = fs)"
    by blast
qed

theorem queue_delivery_is_fifo_witness:
  "active idle_reader \<and> framesOut idle_reader = [] \<and>
   None \<notin> set [Some (frame_of [1]), Some (frame_of [2]), Some (frame_of [3])] \<and>
   run_ops [Enqueue (Some (frame_of [1])), Pull, Pull, Enqueue None, Enqueue (Some (frame_of [2])),
            Enqueue (Some (frame_of [3])), Pull] idle_reader
     = [Some (frame_of [1]), Some (frame_of [2])] \<and>
   run_ops (map Enqueue [Some (frame_of [1]), Some (frame_of [2]), Some (frame_of [3])]
            @ [Pull, Pull, Pull]) idle_reader
     = [Some (frame_of [1]), Some (frame_of [2]), Some (frame_of [3])]"
  using queue_delivery_is_fifo [of idle_reader
      "[Enqueue (Some (frame_of [1])), Pull, Pull, Enqueue None, Enqueue (Some (frame_of [2])),
        Enqueue (Some (frame_of [3])), Pull]"
      "[Some (frame_of [1]), Some (frame_of [2]), Some (frame_of [3])]"]
  by (simp add: idle_reader_def active_def add_outgoing_frame_def take_front_def)

subsection \<open>The queue's lock\<close>

text \<open>
  C8. The claim is that every mutation of the outgoing queue happens while the mutex is
  held. \<^verbatim>\<open>pull_frame\<close> locks \<^verbatim>\<open>frames_mtx_\<close> around \<^verbatim>\<open>front\<close> and \<^verbatim>\<open>erase\<close>, but
  \<^verbatim>\<open>add_outgoing_frame\<close> calls \<^verbatim>\<open>push_back\<close> without taking it: the trace of one enqueue is
  a single unlocked \<^verbatim>\<open>push_back\<close>.
\<close>

theorem add_outgoing_frame_pushes_without_lock:
  "queue_trace (add_outgoing_frame (Some (frame_of [])) idle_reader) = [Queue_push_back] \<and>
   \<not> mutations_locked False (queue_trace (add_outgoing_frame (Some (frame_of [])) idle_reader)) \<and>
   queue_trace (snd (pull_frame [] (idle_reader\<lparr>framesOut := [Some (frame_of [])]\<rparr>)))
     = [Mtx_lock, Queue_front, Queue_erase, Mtx_unlock] \<and>
   mutations_locked False
     (queue_trace (snd (pull_frame [] (idle_reader\<lparr>framesOut := [Some (frame_of [])]\<rparr>))))"
  by (simp add: add_outgoing_frame_def idle_reader_def take_front_def active_def)

subsection \<open>The receive loop\<close>

lemma recvfrom_fields [simp]:
  "active (recvfrom d r) = active r"
  "recv_hook_fn (recvfrom d r) = recv_hook_fn r"
  "recv_hook_arg (recvfrom d r) = recv_hook_arg r"
  "framesOut (recvfrom d r) = framesOut r"
  "hook_calls (recvfrom d r) = hook_calls r"
  "queue_trace (recvfrom d r) = queue_trace r"
  "recv_hook_installed (recvfrom d r) = recv_hook_installed r"
  by (simp_all add: recvfrom_def active_def recv_hook_installed_def)

lemma deliver_active [simp]: "active (deliver frame err r) = active r"
  by (cases frame; cases "recv_hook_fn r")
    (simp_all add: deliver_def recv_hook_def add_outgoing_frame_def active_def recv_hook_installed_def)

lemma loop_body_active: "active (fst (loop_body fmt d a n s)) = active (fst s)"
  by (simp add: loop_body_def Let_def alloc_frame_def split: option.splits)

lemma receiver_loop_active:
  "active (fst (snd (receiver_loop fmt calls s))) = active (fst s)"
proof (induction fmt calls s rule: receiver_loop.induct)
  case (1 fmt s)
  then show ?case by simp
next
  case (2 fmt errno calls s)
  then show ?case by simp
next
  case (3 fmt dgram alloc_ok data_ok calls s)
  then show ?case by (simp add: loop_body_active)
qed

lemma loop_body_unfold:
  "loop_body fmt d a n (r, fu) =
     (if a \<and> n \<and> 12 < length d then
        (deliver (fst (dispatch fmt (frame_read d r) fu))
           (snd (snd (dispatch fmt (frame_read d r) fu))) (recvfrom d r),
         fst (snd (dispatch fmt (frame_read d r) fu)))
      else (recvfrom d r, fu))"
  by (simp add: loop_body_def Let_def alloc_frame_def parse_rtp_header_def frame_read_def
      RTP_HEADER_SIZE_def)

lemma byte_at_append: "i < length d \<Longrightarrow> byte_at (d @ xs) i = byte_at d i"
  by (simp add: byte_at_def nth_append)

lemma frame_read_fields:
  assumes "12 < length d"
  shows "data (frame_read d r) = d"
    and "payload_bytes (frame_read d r) = drop 12 d"
    and "payload_len (frame_read d r) = int (length d) - 12"
    and "ptype (frame_read d r) = rtp_ptype d"
    and "seq (frame_read d r) = rtp_seq d"
  using assms
  by (simp_all add: frame_read_def Let_def get_recv_buffer_def recvfrom_def payload_bytes_def
      rtp_ptype_def rtp_seq_def ntohs_at_def byte_at_append)

lemma frame_read_ptype: "ptype (frame_read d r) = received_ptype d r"
  by (simp add: frame_read_def received_ptype_def Let_def)

lemma received_ptype_of_datagram: "2 \<le> length d \<Longrightarrow> received_ptype d r = rtp_ptype d"
  by (simp add: received_ptype_def rtp_ptype_def get_recv_buffer_def recvfrom_def byte_at_append)

lemma hands_over_nothing: "hands_over r [] (recvfrom d r)"
  by (simp add: hands_over_def split: option.splits)

lemma handed_frames_recvfrom [simp]: "handed_frames (recvfrom d r) = handed_frames r"
  by (simp add: handed_frames_def)

lemma dispatch_unrecognized:
  "uint (ptype frame) \<notin> {RTP_FORMAT_OPUS fmt, RTP_FORMAT_HEVC fmt, RTP_FORMAT_GENERIC fmt} \<Longrightarrow>
   dispatch fmt frame fu = (Some frame, fu, RTP_INVALID_VALUE)"
  by (simp add: dispatch_def)

lemma receiver_loop_datagrams:
  "list_all is_datagram pre \<Longrightarrow> active (fst s) \<Longrightarrow>
   receiver_loop fmt (pre @ rest) s = receiver_loop fmt rest (snd (receiver_loop fmt pre s)) \<and>
   fst (receiver_loop fmt pre s) = Blocked_in_recvfrom"
proof (induction pre arbitrary: s)
  case Nil
  then show ?case by simp
next
  case (Cons c pre)
  then obtain d a n where c: "c = Recv_datagram d a n"
    by (cases c) simp_all
  have "list_all is_datagram pre" "active (fst (loop_body fmt d a n s))"
    using Cons.prems by (simp_all add: loop_body_active)
  from Cons.IH [OF this] show ?case
    using Cons.prems(2) c by simp
qed

text \<open>
  C3, as amended. Whenever \<^verbatim>\<open>recvfrom\<close> returns \<open>-1\<close>, whatever the error (would-block
  included), the receive loop returns at once: at any state of the reader and of the
  reassembly, the first call or after any number of datagrams, the state is left as it
  was and no later datagram is received. The loop never writes the active flag, so the
  reader reports itself active after the loop has ended exactly when it did before.
\<close>

theorem recv_error_returns:
  "(active (fst s) \<longrightarrow> receiver_loop fmt (Recv_error errno # calls) s = (Loop_returned, s)) \<and>
   (active (fst s) \<and> list_all is_datagram pre \<longrightarrow>
      receiver_loop fmt (pre @ Recv_error errno # calls) s
        = (Loop_returned, snd (receiver_loop fmt pre s))) \<and>
   (active r \<longrightarrow> frame_receiver fmt (Recv_error errno # calls) r = (Loop_returned, r)) \<and>
   (active r \<and> list_all is_datagram pre \<longrightarrow>
      frame_receiver fmt (pre @ Recv_error errno # calls) r
        = (Loop_returned, snd (frame_receiver fmt pre r))) \<and>
   active (fst (snd (receiver_loop fmt all_calls s))) = active (fst s) \<and>
   active (snd (frame_receiver fmt all_calls r)) = active r"
proof -
  have step: "receiver_loop fmt (pre @ Recv_error errno # calls) s'
        = (Loop_returned, snd (receiver_loop fmt pre s'))"
    if "active (fst s')" "list_all is_datagram pre" for s'
  proof -
    have "active (fst (snd (receiver_loop fmt pre s')))"
      using that(1) by (simp add: receiver_loop_active)
    then have "receiver_loop fmt (Recv_error errno # calls) (snd (receiver_loop fmt pre s'))
        = (Loop_returned, snd (receiver_loop fmt pre s'))"
      by simp
    with receiver_loop_datagrams [OF that(2,1), of fmt "Recv_error errno # calls"]
    show ?thesis by simp
  qed
  have fr: "frame_receiver fmt (pre @ Recv_error errno # calls) r
        = (Loop_returned, snd (frame_receiver fmt pre r))"
    if "active r" "list_all is_datagram pre"
    using step [of "(r, None)"] that by (simp add: frame_receiver_def Let_def)
  show ?thesis
    using step [of s] fr receiver_loop_active [of fmt all_calls s]
      receiver_loop_active [of fmt all_calls "(r, None)"]
    by (simp add: frame_receiver_def Let_def)
qed

theorem recv_error_returns_witness:
  "active idle_reader \<and>
   list_all is_datagram [arrives (fu_packet 100 0x93 [0xAA])] \<and>
   receiver_loop example_formats
     [Recv_error ECONNREFUSED, Recv_datagram (rtp_packet 0 [0xBE]) True True]
     (idle_reader, Some \<lparr>ctx_buffer = [0x26, 0x01, 0xAA], ctx_nal_header = [0x26, 0x01],
                          ctx_last_seq = 100, ctx_started = True\<rparr>)
     = (Loop_returned, idle_reader,
        Some \<lparr>ctx_buffer = [0x26, 0x01, 0xAA], ctx_nal_header = [0x26, 0x01],
              ctx_last_seq = 100, ctx_started = True\<rparr>) \<and>
   frame_receiver example_formats
     ([arrives (fu_packet 100 0x93 [0xAA])] @
      Recv_error EWOULDBLOCK # [Recv_datagram (rtp_packet 0 [0xBE]) True True]) idle_reader
     = (Loop_returned,
        snd (frame_receiver example_formats [arrives (fu_packet 100 0x93 [0xAA])] idle_reader)) \<and>
   framesOut (snd (frame_receiver example_formats [arrives (fu_packet 100 0x93 [0xAA])] idle_reader))
     = [] \<and>
   frame_receiver example_formats
     [Recv_error ECONNREFUSED, Recv_datagram (replicate 13 0) True True] idle_reader
     = (Loop_returned, idle_reader) \<and>
   active (snd (frame_receiver example_formats
     [Recv_error ECONNREFUSED, Recv_datagram (replicate 13 0) True True] idle_reader))"
proof -
  let ?c = "\<lparr>ctx_buffer = [0x26, 0x01, 0xAA], ctx_nal_header = [0x26, 0x01],
              ctx_last_seq = (100 :: 16 word), ctx_started = True\<rparr>"
  have act: "active idle_reader" "active (fst (idle_reader, Some ?c))"
    by (simp_all add: active_def idle_reader_def)
  have dg: "list_all is_datagram [arrives (fu_packet 100 0x93 [0xAA])]"
    by (simp add: arrives_def)
  have q: "framesOut (snd (frame_receiver example_formats
      [arrives (fu_packet 100 0x93 [0xAA])] idle_reader)) = []"
    by (simp add: frame_receiver_def Let_def loop_body_unfold active_def idle_reader_def
      arrives_def fu_packet_def recvfrom_def dispatch_def frame_read_def get_recv_buffer_def
      byte_at_def example_formats_def process_hevc_frame_def payload_bytes_def
      hevc_nal_type_def NAL_TYPE_FU_def fu_start_bit_def deliver_def)
  show ?thesis
    using recv_error_returns [of "(idle_reader, Some ?c)" example_formats ECONNREFUSED
        "[Recv_datagram (rtp_packet 0 [0xBE]) True True]" "[]" idle_reader "[]"]
      recv_error_returns [of "(idle_reader, None)" example_formats EWOULDBLOCK
        "[Recv_datagram (rtp_packet 0 [0xBE]) True True]"
        "[arrives (fu_packet 100 0x93 [0xAA])]" idle_reader "[]"]
      recv_error_returns [of "(idle_reader, None)" example_formats ECONNREFUSED
        "[Recv_datagram (replicate 13 0) True True]" "[]" idle_reader
        "[Recv_error ECONNREFUSED, Recv_datagram (replicate 13 0) True True]"]
      act dg q
    by simp
qed

text \<open>
  C3 as claimed fails twice: after a receive error the loop has returned and the reader
  still reports itself active, and a would-block error ends the loop as any other does
  (the datagram that follows it is never received).
\<close>

theorem recv_error_stays_active_counterexample:
  "frame_receiver example_formats [Recv_error ECONNREFUSED] idle_reader
     = (Loop_returned, idle_reader) \<and>
   active (snd (frame_receiver example_formats [Recv_error ECONNREFUSED] idle_reader)) \<and>
   frame_receiver example_formats
       [Recv_error EWOULDBLOCK, Recv_datagram (rtp_packet 0 [0xBE]) True True] idle_reader
     = (Loop_returned, idle_reader) \<and>
   framesOut (snd (frame_receiver example_formats
       [Recv_error EWOULDBLOCK, Recv_datagram (rtp_packet 0 [0xBE]) True True] idle_reader)) = [] \<and>
   length (framesOut (snd (frame_receiver example_formats
       [Recv_datagram (rtp_packet 0 [0xBE]) True True] idle_reader))) = 1"
  by (simp add: frame_receiver_def Let_def loop_body_unfold active_def idle_reader_def
      rtp_packet_def recvfrom_def dispatch_def frame_read_def get_recv_buffer_def byte_at_def
      example_formats_def process_generic_frame_def deliver_def recv_hook_installed_def
      add_outgoing_frame_def)

text \<open>
  C5. When the payload type the loop reads for a datagram is none of Opus, HEVC and
  Generic, the iteration only fills the receive buffer: the reassembly state is untouched,
  no hook is called, the queue does not grow, and the loop goes on with the next call of
  \<^verbatim>\<open>recvfrom\<close>. For a datagram of two bytes or more, the payload type read is the low
  seven bits of its second byte.
\<close>

theorem unrecognized_payload_type_dropped:
  assumes "uint (received_ptype d r) \<notin>
             {RTP_FORMAT_OPUS fmt, RTP_FORMAT_HEVC fmt, RTP_FORMAT_GENERIC fmt}"
  shows "loop_body fmt d a n (r, fu) = (recvfrom d r, fu) \<and>
         hands_over r [] (recvfrom d r) \<and>
         handed_frames (recvfrom d r) = handed_frames r \<and>
         (2 \<le> length d \<longrightarrow> received_ptype d r = rtp_ptype d) \<and>
         (active r \<longrightarrow>
            receiver_loop fmt (Recv_datagram d a n # calls) (r, fu)
              = receiver_loop fmt calls (recvfrom d r, fu))"
proof -
  have "dispatch fmt (frame_read d r) fu = (Some (frame_read d r), fu, RTP_INVALID_VALUE)"
    using assms by (intro dispatch_unrecognized) (simp add: frame_read_ptype)
  then have body: "loop_body fmt d a n (r, fu) = (recvfrom d r, fu)"
    by (simp add: loop_body_unfold deliver_def)
  show ?thesis
    using body hands_over_nothing [of r d] received_ptype_of_datagram [of d r]
    by simp
qed

theorem unrecognized_payload_type_dropped_witness:
  "uint (received_ptype (rtp_packet 5 [0xDE, 0xAD]) idle_reader) \<notin>
     {RTP_FORMAT_OPUS example_formats, RTP_FORMAT_HEVC example_formats,
      RTP_FORMAT_GENERIC example_formats} \<and>
   2 \<le> length (rtp_packet 5 [0xDE, 0xAD]) \<and> active idle_reader \<and>
   loop_body example_formats (rtp_packet 5 [0xDE, 0xAD]) True True (idle_reader, None)
     = (recvfrom (rtp_packet 5 [0xDE, 0xAD]) idle_reader, None) \<and>
   handed_frames (recvfrom (rtp_packet 5 [0xDE, 0xAD]) idle_reader) = [] \<and>
   rtp_ptype (rtp_packet 5 [0xDE, 0xAD]) = 5 \<and>
   receiver_loop example_formats
     [Recv_datagram (rtp_packet 5 [0xDE, 0xAD]) True True, Recv_error 11] (idle_reader, None)
     = (Loop_returned, recvfrom (rtp_packet 5 [0xDE, 0xAD]) idle_reader, None)"
proof -
  have pt: "received_ptype (rtp_packet 5 [0xDE, 0xAD]) idle_reader = 5"
      "rtp_ptype (rtp_packet 5 [0xDE, 0xAD]) = 5"
    by (simp_all add: received_ptype_def get_recv_buffer_def recvfrom_def rtp_packet_def
        byte_at_def rtp_ptype_def)
  have h: "uint (received_ptype (rtp_packet 5 [0xDE, 0xAD]) idle_reader) \<notin>
     {RTP_FORMAT_OPUS example_formats, RTP_FORMAT_HEVC example_formats,
      RTP_FORMAT_GENERIC example_formats}"
    unfolding pt by (simp add: example_formats_def)
  have act: "active idle_reader" "handed_frames idle_reader = []"
    by (simp_all add: active_def idle_reader_def handed_frames_def)
  have len: "2 \<le> length (rtp_packet 5 [0xDE, 0xAD])"
    by (simp add: rtp_packet_def)
  show ?thesis
    using unrecognized_payload_type_dropped [OF h, of True True None "[Recv_error 11]"]
      h act len pt(2)
    by simp
qed

lemma positive_frame_read:
  "12 < length d \<Longrightarrow> positive_payload (Some (frame_read d r))"
  using frame_read_fields(2,3) [of d r]
  by (simp add: positive_payload_def)

lemma positive_payload_retyped:
  "positive_payload (Some (f\<lparr>frame_type := t\<rparr>)) = positive_payload (Some f)"
  by (simp add: positive_payload_def payload_bytes_def)

lemma positive_payload_reassembled:
  "b \<noteq> [] \<Longrightarrow>
   positive_payload (Some (f\<lparr>data := b, payload := 0, payload_len := int (length b),
     total_len := int (length b), frame_type := t\<rparr>))"
  by (simp add: positive_payload_def payload_bytes_def)

lemma process_hevc_frame_positive:
  assumes "positive_payload (Some frame)" "ctx_ok fu"
  shows "ctx_ok (fst (snd (process_hevc_frame frame fu))) \<and>
         (snd (snd (process_hevc_frame frame fu)) = RTP_OK \<longrightarrow>
            positive_payload (fst (process_hevc_frame frame fu)))"
proof (cases fu)
  case None
  then show ?thesis
    using assms(1)
    by (simp add: process_hevc_frame_def Let_def ctx_ok_def synthesized_nal_header_def
        positive_payload_retyped)
next
  case (Some c)
  then have len: "0 < length (ctx_buffer c)"
    using assms(2) by (simp add: ctx_ok_def)
  show ?thesis
  proof (cases "snd (snd (process_hevc_frame frame fu)) = RTP_OK \<and> hevc_nal_type (payload_bytes frame) = NAL_TYPE_FU")
    case True
    then have res: "process_hevc_frame frame fu =
      (Some (frame\<lparr>data := ctx_buffer c @ drop 3 (payload_bytes frame), payload := 0,
          payload_len := int (length (ctx_buffer c @ drop 3 (payload_bytes frame))),
          total_len := int (length (ctx_buffer c @ drop 3 (payload_bytes frame))),
          frame_type := FRAME_TYPE_HEVC_FU\<rparr>), None, RTP_OK)"
      using Some by (simp add: process_hevc_frame_def Let_def split: if_splits)
    have "ctx_buffer c @ drop 3 (payload_bytes frame) \<noteq> []"
      using len by simp
    from positive_payload_reassembled [OF this] show ?thesis
      unfolding res by (simp add: ctx_ok_def)
  next
    case False
    with Some len assms(1) show ?thesis
      by (auto simp: process_hevc_frame_def Let_def ctx_ok_def synthesized_nal_header_def
        positive_payload_retyped split: if_splits)
  qed
qed

lemma dispatch_positive:
  assumes "12 < length d" "ctx_ok fu"
  shows "ctx_ok (fst (snd (dispatch fmt (frame_read d r) fu))) \<and>
         (snd (snd (dispatch fmt (frame_read d r) fu)) = RTP_OK \<longrightarrow>
            positive_payload (fst (dispatch fmt (frame_read d r) fu)))"
  using process_hevc_frame_positive [OF positive_frame_read [OF assms(1)] assms(2), of r]
    positive_frame_read [OF assms(1), of r]
  by (simp add: dispatch_def process_opus_frame_def process_generic_frame_def
      positive_payload_retyped assms(2))

lemma handed_frames_deliver:
  "set (handed_frames (deliver frame err r)) \<subseteq> set (handed_frames r) \<union> {frame}"
  by (cases frame; cases "recv_hook_fn r")
    (auto simp: deliver_def recv_hook_installed_def recv_hook_def add_outgoing_frame_def
      handed_frames_def)

lemma handed_frames_deliver_not_ok:
  "err \<noteq> RTP_OK \<Longrightarrow> deliver frame err r = r"
  by (simp add: deliver_def)

lemma loop_body_positive:
  assumes "\<forall>p \<in> set (handed_frames (fst s)). positive_payload p" "ctx_ok (snd s)"
  shows "(\<forall>p \<in> set (handed_frames (fst (loop_body fmt d a n s))). positive_payload p) \<and>
         ctx_ok (snd (loop_body fmt d a n s))"
proof (cases "a \<and> n \<and> 12 < length d")
  case False
  then show ?thesis
    using assms by (cases s) (auto simp: loop_body_unfold)
next
  case True
  obtain r fu where s: "s = (r, fu)" by (cases s)
  let ?res = "dispatch fmt (frame_read d r) fu"
  have dp: "ctx_ok (fst (snd ?res))"
      "snd (snd ?res) = RTP_OK \<longrightarrow> positive_payload (fst ?res)"
    using dispatch_positive [of d fu fmt r] True assms(2) s by simp_all
  have body: "loop_body fmt d a n s =
      (deliver (fst ?res) (snd (snd ?res)) (recvfrom d r), fst (snd ?res))"
    using True s by (simp add: loop_body_unfold)
  have "\<forall>p \<in> set (handed_frames (deliver (fst ?res) (snd (snd ?res)) (recvfrom d r))).
          positive_payload p"
  proof (cases "snd (snd ?res) = RTP_OK")
    case True
    with dp(2) have "positive_payload (fst ?res)" by simp
    with handed_frames_deliver [of "fst ?res" "snd (snd ?res)" "recvfrom d r"] assms(1) s
    show ?thesis by auto
  next
    case False
    with assms(1) s show ?thesis
      by (simp add: handed_frames_deliver_not_ok)
  qed
  with dp(1) body show ?thesis by simp
qed

lemma receiver_loop_positive:
  "\<forall>p \<in> set (handed_frames (fst s)). positive_payload p \<Longrightarrow> ctx_ok (snd s) \<Longrightarrow>
   \<forall>p \<in> set (handed_frames (fst (snd (receiver_loop fmt calls s)))). positive_payload p"
proof (induction fmt calls s rule: receiver_loop.induct)
  case (1 fmt s)
  then show ?case by simp
next
  case (2 fmt errno calls s)
  then show ?case by simp
next
  case (3 fmt dgram alloc_ok data_ok calls s)
  show ?case
  proof (cases "active (fst s)")
    case True
    have "\<forall>p \<in> set (handed_frames (fst (snd (receiver_loop fmt calls
            (loop_body fmt dgram alloc_ok data_ok s))))). positive_payload p"
      using "3.IH" [OF True] loop_body_positive [OF "3.prems", of fmt dgram alloc_ok data_ok]
      by blast
    with True show ?thesis by simp
  next
    case False
    with "3.prems" show ?thesis by simp
  qed
qed

text \<open>
  C4. A datagram of 12 bytes or fewer only fills the receive buffer: no hook is called,
  the queue does not grow, and the loop goes on with the next call of \<^verbatim>\<open>recvfrom\<close>.
  And when every frame handed to the application so far (by a hook call or through the
  queue) is not null and has a payload length above zero and payload bytes, the same is
  true after the receive loop has run over any calls of \<^verbatim>\<open>recvfrom\<close>.
\<close>

theorem short_datagram_never_delivered:
  "(length d \<le> 12 \<longrightarrow>
      loop_body fmt d a n (r, fu) = (recvfrom d r, fu) \<and>
      handed_frames (recvfrom d r) = handed_frames r \<and>
      hands_over r [] (recvfrom d r) \<and>
      (active r \<longrightarrow>
         receiver_loop fmt (Recv_datagram d a n # calls) (r, fu)
           = receiver_loop fmt calls (recvfrom d r, fu))) \<and>
   ((\<forall>p \<in> set (handed_frames r). positive_payload p) \<longrightarrow>
      (\<forall>p \<in> set (handed_frames (snd (frame_receiver fmt all_calls r))). positive_payload p))"
proof -
  have "\<forall>p \<in> set (handed_frames (snd (frame_receiver fmt all_calls r))). positive_payload p"
    if "\<forall>p \<in> set (handed_frames r). positive_payload p"
    using receiver_loop_positive [of "(r, None)" fmt all_calls] that
    by (simp add: frame_receiver_def Let_def ctx_ok_def)
  then show ?thesis
    using hands_over_nothing [of r d] by (simp add: loop_body_unfold)
qed

theorem short_datagram_never_delivered_witness:
  "length (replicate 12 0 :: byte list) \<le> 12 \<and> active idle_reader \<and>
   loop_body example_formats (replicate 12 0) True True (idle_reader, None)
     = (recvfrom (replicate 12 0) idle_reader, None) \<and>
   handed_frames (recvfrom (replicate 12 0) idle_reader) = [] \<and>
   receiver_loop example_formats [Recv_datagram (replicate 12 0) True True, Recv_error 11]
       (idle_reader, None)
     = (Loop_returned, recvfrom (replicate 12 0) idle_reader, None) \<and>
   list_all positive_payload (handed_frames idle_reader) \<and>
   length (handed_frames (snd (frame_receiver example_formats
         [Recv_datagram (replicate 12 0) True True, Recv_datagram (rtp_packet 0 [0xBE]) True True]
         idle_reader))) = 1 \<and>
   list_all positive_payload (handed_frames (snd (frame_receiver example_formats
         [Recv_datagram (replicate 12 0) True True, Recv_datagram (rtp_packet 0 [0xBE]) True True]
         idle_reader)))"
proof -
  have act: "active idle_reader" "handed_frames idle_reader = []"
    by (simp_all add: active_def idle_reader_def handed_frames_def)
  have ev: "length (handed_frames (snd (frame_receiver example_formats
         [Recv_datagram (replicate 12 0) True True, Recv_datagram (rtp_packet 0 [0xBE]) True True]
         idle_reader))) = 1"
    by (simp add: frame_receiver_def Let_def loop_body_unfold active_def idle_reader_def
      rtp_packet_def recvfrom_def dispatch_def frame_read_def get_recv_buffer_def byte_at_def
      example_formats_def process_generic_frame_def deliver_def recv_hook_installed_def
      add_outgoing_frame_def handed_frames_def)
  show ?thesis
    using short_datagram_never_delivered [of "replicate 12 0" example_formats True True
        idle_reader None "[Recv_error 11]"
        "[Recv_datagram (replicate 12 0) True True, Recv_datagram (rtp_packet 0 [0xBE]) True True]"]
      act ev
    by (simp add: list_all_iff)
qed

lemma ntohs_at_append: "i + 1 < length d \<Longrightarrow> ntohs_at (d @ xs) i = ntohs_at d i"
  by (simp add: ntohs_at_def byte_at_append)

lemma ntohl_at_append: "i + 3 < length d \<Longrightarrow> ntohl_at (d @ xs) i = ntohl_at d i"
  by (simp add: ntohl_at_def byte_at_append)

lemma frame_read_indep: "12 < length d \<Longrightarrow> frame_read d r = frame_read d r'"
  by (simp add: frame_read_def Let_def get_recv_buffer_def recvfrom_def byte_at_append
      ntohs_at_append ntohl_at_append)

lemma recvfrom_buffer: "recvfrom d (r\<lparr>recv_buffer := b\<rparr>) = r\<lparr>recv_buffer := d @ drop (length d) b\<rparr>"
  by (simp add: recvfrom_def)

lemma recvfrom_as_update: "recvfrom d r = r\<lparr>recv_buffer := d @ drop (length d) (recv_buffer r)\<rparr>"
  by (simp add: recvfrom_def)

lemma hands_over_deliver:
  "hands_over r [Some f] (deliver (Some f) RTP_OK (r\<lparr>recv_buffer := b\<rparr>))"
  by (cases "recv_hook_fn r")
    (simp_all add: hands_over_def deliver_def recv_hook_installed_def recv_hook_def
      add_outgoing_frame_def)

lemma hands_over_buffer: "hands_over r [] (r\<lparr>recv_buffer := b\<rparr>)"
  by (simp add: hands_over_def split: option.splits)

text \<open>
  C2. For a datagram of more than 12 bytes whose payload type is Generic or Opus, with
  both allocations succeeding, the iteration hands exactly one frame to the application;
  its payload bytes are the datagram's bytes from offset 12 on and its payload length is
  the datagram's length minus 12. When an allocation fails, nothing is handed over.
\<close>

theorem generic_opus_payload_preserved:
  assumes "distinct_formats fmt" and "12 < length d"
    and "uint (rtp_ptype d) = RTP_FORMAT_GENERIC fmt \<or> uint (rtp_ptype d) = RTP_FORMAT_OPUS fmt"
  shows "(\<exists>f. loop_body fmt d True True (r, fu) = (deliver (Some f) RTP_OK (recvfrom d r), fu) \<and>
              hands_over r [Some f] (deliver (Some f) RTP_OK (recvfrom d r)) \<and>
              payload_bytes f = drop 12 d \<and>
              payload_len f = int (length d) - 12 \<and>
              int (length (payload_bytes f)) = payload_len f) \<and>
         (\<not> (a \<and> n) \<longrightarrow> loop_body fmt d a n (r, fu) = (recvfrom d r, fu) \<and>
              hands_over r [] (recvfrom d r))"
proof -
  let ?t = "if uint (rtp_ptype d) = RTP_FORMAT_OPUS fmt then FRAME_TYPE_OPUS else FRAME_TYPE_GENERIC"
  let ?f = "(frame_read d r)\<lparr>frame_type := ?t\<rparr>"
  have disp: "dispatch fmt (frame_read d r) fu = (Some ?f, fu, RTP_OK)"
    using assms
    by (auto simp: dispatch_def frame_read_fields(4) distinct_formats_def
        process_opus_frame_def process_generic_frame_def)
  have body: "loop_body fmt d True True (r, fu) = (deliver (Some ?f) RTP_OK (recvfrom d r), fu)"
    using assms(2) by (simp add: loop_body_unfold disp)
  have ho: "hands_over r [Some ?f] (deliver (Some ?f) RTP_OK (recvfrom d r))"
    unfolding recvfrom_as_update by (rule hands_over_deliver)
  have pb: "payload_bytes ?f = drop 12 d" "payload_len ?f = int (length d) - 12"
    using frame_read_fields(2,3) [OF assms(2), of r]
    by (simp_all add: payload_bytes_def)
  have len: "int (length (payload_bytes ?f)) = payload_len ?f"
    using assms(2) by (simp add: pb)
  have fail: "loop_body fmt d a n (r, fu) = (recvfrom d r, fu)" if "\<not> (a \<and> n)"
    using that by (auto simp: loop_body_unfold)
  show ?thesis
    using body ho pb len fail hands_over_nothing [of r d] by blast
qed

theorem generic_opus_payload_preserved_witness:
  "distinct_formats example_formats \<and> 12 < length (rtp_packet 97 [0xDE, 0xAD]) \<and>
   uint (rtp_ptype (rtp_packet 97 [0xDE, 0xAD])) = RTP_FORMAT_OPUS example_formats \<and>
   uint (rtp_ptype (rtp_packet 0 [0xBE, 0xEF, 0x01])) = RTP_FORMAT_GENERIC example_formats \<and>
   (\<exists>f. fst (loop_body example_formats (rtp_packet 97 [0xDE, 0xAD]) True True (idle_reader, None))
          = deliver (Some f) RTP_OK (recvfrom (rtp_packet 97 [0xDE, 0xAD]) idle_reader) \<and>
        hands_over idle_reader [Some f]
          (deliver (Some f) RTP_OK (recvfrom (rtp_packet 97 [0xDE, 0xAD]) idle_reader)) \<and>
        payload_bytes f = [0xDE, 0xAD] \<and> payload_len f = 2) \<and>
   (\<exists>f. fst (loop_body example_formats (rtp_packet 0 [0xBE, 0xEF, 0x01]) True True (idle_reader, None))
          = deliver (Some f) RTP_OK (recvfrom (rtp_packet 0 [0xBE, 0xEF, 0x01]) idle_reader) \<and>
        payload_bytes f = [0xBE, 0xEF, 0x01] \<and> payload_len f = 3) \<and>
   \<not> (False \<and> True) \<and>
   loop_body example_formats (rtp_packet 97 [0xDE, 0xAD]) False True (idle_reader, None)
     = (recvfrom (rtp_packet 97 [0xDE, 0xAD]) idle_reader, None)"
proof -
  have fmt: "distinct_formats example_formats"
    by (simp add: distinct_formats_def example_formats_def)
  have len: "12 < length (rtp_packet 97 [0xDE, 0xAD])" "12 < length (rtp_packet 0 [0xBE, 0xEF, 0x01])"
    by (simp_all add: rtp_packet_def)
  have pt: "uint (rtp_ptype (rtp_packet 97 [0xDE, 0xAD])) = RTP_FORMAT_OPUS example_formats"
      "uint (rtp_ptype (rtp_packet 0 [0xBE, 0xEF, 0x01])) = RTP_FORMAT_GENERIC example_formats"
    by (simp_all add: rtp_ptype_def rtp_packet_def byte_at_def example_formats_def)
  have d: "drop 12 (rtp_packet 97 [0xDE, 0xAD]) = [0xDE, 0xAD]"
      "drop 12 (rtp_packet 0 [0xBE, 0xEF, 0x01]) = [0xBE, 0xEF, 0x01]"
      "int (length (rtp_packet 97 [0xDE, 0xAD])) - 12 = 2"
      "int (length (rtp_packet 0 [0xBE, 0xEF, 0x01])) - 12 = 3"
    by (simp_all add: rtp_packet_def)
  show ?thesis
    using generic_opus_payload_preserved [OF fmt len(1), of idle_reader None False True] pt(1)
      generic_opus_payload_preserved [OF fmt len(2), of idle_reader None True True] pt(2)
      fmt len(1)
    unfolding d by fastforce
qed

lemma consecutive_snoc:
  "consecutive (xs @ [y]) = (consecutive xs \<and> (xs \<noteq> [] \<longrightarrow> y = last xs + 1))"
  by (induction xs rule: consecutive.induct) auto

lemma fu_packet_bytes:
  assumes "is_fu_packet fmt d"
  shows "payload_bytes (frame_read d r) = drop 12 d"
    and "\<not> length (drop 12 d) < 3"
    and "byte_at (drop 12 d) 2 = fu_header d"
    and "drop 3 (drop 12 d) = fu_payload d"
    and "seq (frame_read d r) = rtp_seq d"
    and "12 < length d"
proof -
  have len: "15 \<le> length d"
    using assms by (simp add: is_fu_packet_def)
  then show "12 < length d" by simp
  then show "payload_bytes (frame_read d r) = drop 12 d" "seq (frame_read d r) = rtp_seq d"
    by (simp_all add: frame_read_fields)
  show "\<not> length (drop 12 d) < 3"
    using len by simp
  have "2 < length d - 12" "14 < length d"
    using len by arith+
  then show "byte_at (drop 12 d) 2 = fu_header d"
    using len by (simp add: fu_header_def byte_at_def)
  show "drop 3 (drop 12 d) = fu_payload d"
    by (simp add: fu_payload_def)
qed

lemma fu_packet_dispatch:
  assumes "is_fu_packet fmt d" "distinct_formats fmt"
  shows "loop_body fmt d True True (r, fu) =
     (deliver (fst (process_hevc_frame (frame_read d r) fu))
        (snd (snd (process_hevc_frame (frame_read d r) fu))) (recvfrom d r),
      fst (snd (process_hevc_frame (frame_read d r) fu)))"
proof -
  have "12 < length d" "uint (ptype (frame_read d r)) = RTP_FORMAT_HEVC fmt"
    using assms(1) frame_read_fields(4) [of d r] by (simp_all add: is_fu_packet_def)
  moreover have "RTP_FORMAT_HEVC fmt \<noteq> RTP_FORMAT_OPUS fmt"
    using assms(2) by (auto simp: distinct_formats_def)
  ultimately show ?thesis
    by (simp add: loop_body_unfold dispatch_def)
qed

lemma fu_start_step:
  assumes "fu_START fmt d" "distinct_formats fmt"
  shows "loop_body fmt d True True (r, fu) =
     (recvfrom d r,
      Some \<lparr>ctx_buffer = synthesized_nal_header (drop 12 d) @ fu_payload d,
            ctx_nal_header = synthesized_nal_header (drop 12 d),
            ctx_last_seq = rtp_seq d, ctx_started = True\<rparr>)"
proof -
  have fu: "is_fu_packet fmt d" and st: "fu_start_bit (fu_header d)"
    using assms(1) by (simp_all add: fu_START_def)
  have nal: "hevc_nal_type (drop 12 d) = NAL_TYPE_FU" "\<not> length (drop 12 d) < 2"
    using fu fu_packet_bytes(2) [OF fu] by (simp_all add: is_fu_packet_def)
  show ?thesis
    unfolding fu_packet_dispatch [OF fu assms(2)]
    using st nal fu_packet_bytes(2) [OF fu]
    by (simp add: process_hevc_frame_def Let_def fu_packet_bytes(1,3,5) [OF fu] fu_payload_def deliver_def)
qed

lemma fu_middle_step:
  assumes "fu_MIDDLE fmt d" "distinct_formats fmt" "rtp_seq d = ctx_last_seq c + 1"
  shows "loop_body fmt d True True (r, Some c) =
     (recvfrom d r, Some (c\<lparr>ctx_buffer := ctx_buffer c @ fu_payload d, ctx_last_seq := rtp_seq d\<rparr>))"
proof -
  have fu: "is_fu_packet fmt d" and st: "\<not> fu_start_bit (fu_header d)" "\<not> fu_end_bit (fu_header d)"
    using assms(1) by (simp_all add: fu_MIDDLE_def)
  have nal: "hevc_nal_type (drop 12 d) = NAL_TYPE_FU" "\<not> length (drop 12 d) < 2"
    using fu fu_packet_bytes(2) [OF fu] by (simp_all add: is_fu_packet_def)
  show ?thesis
    unfolding fu_packet_dispatch [OF fu assms(2)]
    using st nal fu_packet_bytes(2) [OF fu] assms(3)
    by (simp add: process_hevc_frame_def Let_def fu_packet_bytes(1,3,5) [OF fu] fu_payload_def deliver_def)
qed

lemma fu_end_step:
  assumes "fu_END fmt d" "distinct_formats fmt" "rtp_seq d = ctx_last_seq c + 1"
  shows "\<exists>f. loop_body fmt d True True (r, Some c) = (deliver (Some f) RTP_OK (recvfrom d r), None) \<and>
     payload_bytes f = ctx_buffer c @ fu_payload d"
proof -
  have fu: "is_fu_packet fmt d" and st: "\<not> fu_start_bit (fu_header d)" "fu_end_bit (fu_header d)"
    using assms(1) by (simp_all add: fu_END_def)
  have nal: "hevc_nal_type (drop 12 d) = NAL_TYPE_FU" "\<not> length (drop 12 d) < 2"
    using fu fu_packet_bytes(2) [OF fu] by (simp_all add: is_fu_packet_def)
  let ?b = "ctx_buffer c @ fu_payload d"
  let ?f = "(frame_read d r)\<lparr>data := ?b, payload := 0, payload_len := int (length ?b),
      total_len := int (length ?b), frame_type := FRAME_TYPE_HEVC_FU\<rparr>"
  have "process_hevc_frame (frame_read d r) (Some c) = (Some ?f, None, RTP_OK)"
    using st nal fu_packet_bytes(2) [OF fu] assms(3)
    by (simp add: process_hevc_frame_def Let_def fu_packet_bytes(1,3,5) [OF fu] fu_payload_def)
  then have "loop_body fmt d True True (r, Some c) = (deliver (Some ?f) RTP_OK (recvfrom d r), None)"
    unfolding fu_packet_dispatch [OF fu assms(2)] by simp
  moreover have "payload_bytes ?f = ?b"
    by (simp add: payload_bytes_def)
  ultimately show ?thesis by blast
qed

lemma fu_end_gap_step:
  assumes "fu_END fmt d" "distinct_formats fmt" "rtp_seq d \<noteq> ctx_last_seq c + 1"
  shows "loop_body fmt d True True (r, Some c) = (recvfrom d r, None)"
proof -
  have fu: "is_fu_packet fmt d" and st: "\<not> fu_start_bit (fu_header d)" "fu_end_bit (fu_header d)"
    using assms(1) by (simp_all add: fu_END_def)
  have nal: "hevc_nal_type (drop 12 d) = NAL_TYPE_FU" "\<not> length (drop 12 d) < 2"
    using fu fu_packet_bytes(2) [OF fu] by (simp_all add: is_fu_packet_def)
  show ?thesis
    unfolding fu_packet_dispatch [OF fu assms(2)]
    using st nal fu_packet_bytes(2) [OF fu] assms(3)
    by (simp add: process_hevc_frame_def Let_def fu_packet_bytes(1,3,5) [OF fu] fu_payload_def deliver_def)
qed

lemma receiver_loop_arrives:
  "active r \<Longrightarrow>
   receiver_loop fmt (arrives d # calls) (r, fu) = receiver_loop fmt calls (loop_body fmt d True True (r, fu))"
  by (simp add: arrives_def)

lemma active_buffer [simp]: "active (r\<lparr>recv_buffer := b\<rparr>) = active r"
  by (simp add: active_def)

lemma fu_middles:
  assumes "distinct_formats fmt" "active r"
  shows "\<forall>m \<in> set ms. fu_MIDDLE fmt m \<Longrightarrow> consecutive (ctx_last_seq c # map rtp_seq ms) \<Longrightarrow>
    \<exists>b'. receiver_loop fmt (map arrives ms @ calls) (r\<lparr>recv_buffer := b\<rparr>, Some c) =
      receiver_loop fmt calls
        (r\<lparr>recv_buffer := b'\<rparr>,
         Some (c\<lparr>ctx_buffer := ctx_buffer c @ concat (map fu_payload ms),
                 ctx_last_seq := last (ctx_last_seq c # map rtp_seq ms)\<rparr>))"
proof (induction ms arbitrary: b c)
  case Nil
  then show ?case by auto
next
  case (Cons m ms)
  let ?c' = "c\<lparr>ctx_buffer := ctx_buffer c @ fu_payload m, ctx_last_seq := rtp_seq m\<rparr>"
  have m: "fu_MIDDLE fmt m" "rtp_seq m = ctx_last_seq c + 1"
    using Cons.prems by simp_all
  have step: "loop_body fmt m True True (r\<lparr>recv_buffer := b\<rparr>, Some c) =
      (r\<lparr>recv_buffer := m @ drop (length m) b\<rparr>, Some ?c')"
    using fu_middle_step [OF m(1) assms(1) m(2), of "r\<lparr>recv_buffer := b\<rparr>"]
    by (simp add: recvfrom_buffer)
  have "\<forall>m \<in> set ms. fu_MIDDLE fmt m" "consecutive (ctx_last_seq ?c' # map rtp_seq ms)"
    using Cons.prems by auto
  from Cons.IH [OF this, of "m @ drop (length m) b"]
  obtain b' where "receiver_loop fmt (map arrives ms @ calls)
        (r\<lparr>recv_buffer := m @ drop (length m) b\<rparr>, Some ?c') =
      receiver_loop fmt calls
        (r\<lparr>recv_buffer := b'\<rparr>,
         Some (?c'\<lparr>ctx_buffer := ctx_buffer ?c' @ concat (map fu_payload ms),
                 ctx_last_seq := last (ctx_last_seq ?c' # map rtp_seq ms)\<rparr>))"
    by blast
  then have "receiver_loop fmt (map arrives (m # ms) @ calls) (r\<lparr>recv_buffer := b\<rparr>, Some c) =
      receiver_loop fmt calls
        (r\<lparr>recv_buffer := b'\<rparr>,
         Some (c\<lparr>ctx_buffer := ctx_buffer c @ concat (map fu_payload (m # ms)),
                 ctx_last_seq := last (ctx_last_seq c # map rtp_seq (m # ms))\<rparr>))"
    using assms(2) step by (simp add: receiver_loop_arrives)
  then show ?case by blast
qed

lemma fu_train_to_end:
  assumes "distinct_formats fmt" "active r" "fu_START fmt s" "\<forall>m \<in> set ms. fu_MIDDLE fmt m"
    "consecutive (map rtp_seq (s # ms))"
  shows "\<exists>b c. receiver_loop fmt (map arrives (s # ms) @ calls) (r, fu) =
           receiver_loop fmt calls (r\<lparr>recv_buffer := b\<rparr>, Some c) \<and>
         ctx_buffer c = synthesized_nal_header (drop 12 s) @ concat (map fu_payload (s # ms)) \<and>
         ctx_last_seq c = last (map rtp_seq (s # ms))"
proof -
  let ?c = "\<lparr>ctx_buffer = synthesized_nal_header (drop 12 s) @ fu_payload s,
            ctx_nal_header = synthesized_nal_header (drop 12 s),
            ctx_last_seq = rtp_seq s, ctx_started = True\<rparr>"
  have first: "receiver_loop fmt (map arrives (s # ms) @ calls) (r, fu) =
      receiver_loop fmt (map arrives ms @ calls)
        (r\<lparr>recv_buffer := s @ drop (length s) (recv_buffer r)\<rparr>, Some ?c)"
    using assms(2) fu_start_step [OF assms(3,1), of r fu]
    by (simp add: receiver_loop_arrives recvfrom_as_update)
  have "consecutive (ctx_last_seq ?c # map rtp_seq ms)"
    using assms(5) by simp
  from fu_middles [OF assms(1,2,4) this, of calls "s @ drop (length s) (recv_buffer r)"]
  obtain b' where rest: "receiver_loop fmt (map arrives ms @ calls)
        (r\<lparr>recv_buffer := s @ drop (length s) (recv_buffer r)\<rparr>, Some ?c) =
      receiver_loop fmt calls
        (r\<lparr>recv_buffer := b'\<rparr>,
         Some (?c\<lparr>ctx_buffer := ctx_buffer ?c @ concat (map fu_payload ms),
                 ctx_last_seq := last (ctx_last_seq ?c # map rtp_seq ms)\<rparr>))"
    by blast
  let ?c' = "?c\<lparr>ctx_buffer := ctx_buffer ?c @ concat (map fu_payload ms),
                 ctx_last_seq := last (ctx_last_seq ?c # map rtp_seq ms)\<rparr>"
  have "receiver_loop fmt (map arrives (s # ms) @ calls) (r, fu) =
           receiver_loop fmt calls (r\<lparr>recv_buffer := b'\<rparr>, Some ?c')"
    using first rest by simp
  moreover have "ctx_buffer ?c' = synthesized_nal_header (drop 12 s) @ concat (map fu_payload (s # ms))"
    by simp
  moreover have "ctx_last_seq ?c' = last (map rtp_seq (s # ms))"
    by simp
  ultimately show ?thesis by blast
qed

lemma fu_train_complete:
  assumes "distinct_formats fmt" "active r" "fu_START fmt s" "\<forall>m \<in> set ms. fu_MIDDLE fmt m"
    "fu_END fmt e" "consecutive (map rtp_seq (s # ms))"
    "rtp_seq e = last (map rtp_seq (s # ms)) + 1"
  shows "\<exists>r' f. receiver_loop fmt (map arrives (s # ms @ [e]) @ calls) (r, fu) =
           receiver_loop fmt calls (r', None) \<and> active r' \<and>
         hands_over r [Some f] r' \<and>
         payload_bytes f = synthesized_nal_header (drop 12 s) @ concat (map fu_payload (s # ms @ [e]))"
proof -
  from fu_train_to_end [OF assms(1,2,3,4,6), of "arrives e # calls" fu]
  obtain b c where pre: "receiver_loop fmt (map arrives (s # ms) @ arrives e # calls) (r, fu) =
           receiver_loop fmt (arrives e # calls) (r\<lparr>recv_buffer := b\<rparr>, Some c)"
    and buf: "ctx_buffer c = synthesized_nal_header (drop 12 s) @ concat (map fu_payload (s # ms))"
    and sq: "ctx_last_seq c = last (map rtp_seq (s # ms))"
    by blast
  have "rtp_seq e = ctx_last_seq c + 1"
    using assms(7) sq by simp
  from fu_end_step [OF assms(5,1) this, of "r\<lparr>recv_buffer := b\<rparr>"]
  obtain f where body: "loop_body fmt e True True (r\<lparr>recv_buffer := b\<rparr>, Some c) =
      (deliver (Some f) RTP_OK (recvfrom e (r\<lparr>recv_buffer := b\<rparr>)), None)"
    and pf: "payload_bytes f = ctx_buffer c @ fu_payload e"
    by blast
  let ?r' = "deliver (Some f) RTP_OK (r\<lparr>recv_buffer := e @ drop (length e) b\<rparr>)"
  have "receiver_loop fmt (map arrives (s # ms @ [e]) @ calls) (r, fu) =
      receiver_loop fmt calls (?r', None)"
    using pre body assms(2) by (simp add: receiver_loop_arrives recvfrom_buffer)
  moreover have "active ?r'"
    using assms(2) by simp
  moreover have "hands_over r [Some f] ?r'"
    by (rule hands_over_deliver)
  moreover have "payload_bytes f =
      synthesized_nal_header (drop 12 s) @ concat (map fu_payload (s # ms @ [e]))"
    using pf buf by simp
  ultimately show ?thesis by blast
qed

lemma fu_train_gap:
  assumes "distinct_formats fmt" "active r" "fu_START fmt s" "\<forall>m \<in> set ms. fu_MIDDLE fmt m"
    "fu_END fmt e" "consecutive (map rtp_seq (s # ms))"
    "rtp_seq e \<noteq> last (map rtp_seq (s # ms)) + 1"
  shows "\<exists>r'. receiver_loop fmt (map arrives (s # ms @ [e]) @ calls) (r, fu) =
           receiver_loop fmt calls (r', None) \<and> active r' \<and> hands_over r [] r'"
proof -
  from fu_train_to_end [OF assms(1,2,3,4,6), of "arrives e # calls" fu]
  obtain b c where pre: "receiver_loop fmt (map arrives (s # ms) @ arrives e # calls) (r, fu) =
           receiver_loop fmt (arrives e # calls) (r\<lparr>recv_buffer := b\<rparr>, Some c)"
    and sq: "ctx_last_seq c = last (map rtp_seq (s # ms))"
    by blast
  have "rtp_seq e \<noteq> ctx_last_seq c + 1"
    using assms(7) sq by simp
  from fu_end_gap_step [OF assms(5,1) this, of "r\<lparr>recv_buffer := b\<rparr>"]
  have body: "loop_body fmt e True True (r\<lparr>recv_buffer := b\<rparr>, Some c) =
      (r\<lparr>recv_buffer := e @ drop (length e) b\<rparr>, None)"
    by (simp add: recvfrom_buffer)
  let ?r' = "r\<lparr>recv_buffer := e @ drop (length e) b\<rparr>"
  have "receiver_loop fmt (map arrives (s # ms @ [e]) @ calls) (r, fu) =
      receiver_loop fmt calls (?r', None)"
    using pre body assms(2) by (simp add: receiver_loop_arrives)
  moreover have "active ?r'"
    using assms(2) by simp
  moreover have "hands_over r [] ?r'"
    by (rule hands_over_buffer)
  ultimately show ?thesis by blast
qed

lemma frame_receiver_blocked:
  "receiver_loop fmt calls (r, None) = receiver_loop fmt [] (r', fu') \<Longrightarrow> active r' \<Longrightarrow>
   frame_receiver fmt calls r = (Blocked_in_recvfrom, r')"
  by (simp add: frame_receiver_def Let_def)

text \<open>
  C1. A START fragment, any number of middle fragments and an END fragment arrive in this
  order, the sequence numbers of the START and middle fragments being consecutive modulo
  \<open>2 ^ 16\<close>. When the END fragment's sequence number is the next one, the loop hands
  exactly one frame to the application, whose payload is the NAL header synthesized from
  the START fragment followed by the payloads of all the fragments, in order, each without
  its FU header; the loop then goes on with the calls that follow. When the END fragment's
  sequence number is any other, no frame is handed over. This holds whatever reassembly
  state the train finds, and in particular for \<^verbatim>\<open>frame_receiver\<close> run on the train alone.
\<close>

theorem hevc_fu_train_reassembled:
  assumes "distinct_formats fmt" and "active r" and "fu_START fmt s"
    and "\<forall>m \<in> set ms. fu_MIDDLE fmt m" and "fu_END fmt e"
    and "consecutive (map rtp_seq (s # ms))"
  shows "(rtp_seq e = last (map rtp_seq (s # ms)) + 1 \<longrightarrow>
           (\<exists>r' f. receiver_loop fmt (map arrives (s # ms @ [e]) @ calls) (r, fu) =
                      receiver_loop fmt calls (r', None) \<and>
                    hands_over r [Some f] r' \<and>
                    payload_bytes f =
                      synthesized_nal_header (drop 12 s) @ concat (map fu_payload (s # ms @ [e]))) \<and>
           (\<exists>r' f. frame_receiver fmt (map arrives (s # ms @ [e])) r = (Blocked_in_recvfrom, r') \<and>
                    hands_over r [Some f] r' \<and>
                    payload_bytes f =
                      synthesized_nal_header (drop 12 s) @ concat (map fu_payload (s # ms @ [e])))) \<and>
         (rtp_seq e \<noteq> last (map rtp_seq (s # ms)) + 1 \<longrightarrow>
           (\<exists>r'. receiver_loop fmt (map arrives (s # ms @ [e]) @ calls) (r, fu) =
                    receiver_loop fmt calls (r', None) \<and>
                  hands_over r [] r') \<and>
           (\<exists>r'. frame_receiver fmt (map arrives (s # ms @ [e])) r = (Blocked_in_recvfrom, r') \<and>
                  hands_over r [] r'))"
proof (intro conjI impI)
  assume sq: "rtp_seq e = last (map rtp_seq (s # ms)) + 1"
  from fu_train_complete [OF assms sq, of calls fu]
  show "\<exists>r' f. receiver_loop fmt (map arrives (s # ms @ [e]) @ calls) (r, fu) =
                      receiver_loop fmt calls (r', None) \<and>
                    hands_over r [Some f] r' \<and>
                    payload_bytes f =
                      synthesized_nal_header (drop 12 s) @ concat (map fu_payload (s # ms @ [e]))"
    by blast
  from fu_train_complete [OF assms sq, of "[]" None]
  obtain r' f where "receiver_loop fmt (map arrives (s # ms @ [e])) (r, None) =
           receiver_loop fmt [] (r', None)" "active r'" "hands_over r [Some f] r'"
         "payload_bytes f = synthesized_nal_header (drop 12 s) @ concat (map fu_payload (s # ms @ [e]))"
    by auto
  with frame_receiver_blocked [of fmt "map arrives (s # ms @ [e])" r r' None]
  show "\<exists>r' f. frame_receiver fmt (map arrives (s # ms @ [e])) r = (Blocked_in_recvfrom, r') \<and>
                    hands_over r [Some f] r' \<and>
                    payload_bytes f =
                      synthesized_nal_header (drop 12 s) @ concat (map fu_payload (s # ms @ [e]))"
    by blast
next
  assume sq: "rtp_seq e \<noteq> last (map rtp_seq (s # ms)) + 1"
  from fu_train_gap [OF assms sq, of calls fu]
  show "\<exists>r'. receiver_loop fmt (map arrives (s # ms @ [e]) @ calls) (r, fu) =
                    receiver_loop fmt calls (r', None) \<and>
                  hands_over r [] r'"
    by blast
  from fu_train_gap [OF assms sq, of "[]" None]
  obtain r' where "receiver_loop fmt (map arrives (s # ms @ [e])) (r, None) =
           receiver_loop fmt [] (r', None)" "active r'" "hands_over r [] r'"
    by auto
  with frame_receiver_blocked [of fmt "map arrives (s # ms @ [e])" r r' None]
  show "\<exists>r'. frame_receiver fmt (map arrives (s # ms @ [e])) r = (Blocked_in_recvfrom, r') \<and>
                  hands_over r [] r'"
    by blast
qed

theorem hevc_fu_train_reassembled_witness:
  "distinct_formats example_formats \<and> active idle_reader \<and>
   fu_START example_formats (fu_packet 100 0x93 [0xAA]) \<and>
   fu_MIDDLE example_formats (fu_packet 101 0x13 [0xBB]) \<and>
   fu_END example_formats (fu_packet 102 0x53 [0xCC]) \<and>
   fu_END example_formats (fu_packet 103 0x53 [0xCC]) \<and>
   map rtp_seq [fu_packet 100 0x93 [0xAA], fu_packet 101 0x13 [0xBB], fu_packet 102 0x53 [0xCC],
     fu_packet 103 0x53 [0xCC]] = [100, 101, 102, 103] \<and>
   (\<exists>r' f. frame_receiver example_formats
              (map arrives [fu_packet 100 0x93 [0xAA], fu_packet 101 0x13 [0xBB],
                 fu_packet 102 0x53 [0xCC]]) idle_reader = (Blocked_in_recvfrom, r') \<and>
            framesOut r' = [Some f] \<and> hook_calls r' = [] \<and>
            payload_bytes f = [0x26, 0x01, 0xAA, 0xBB, 0xCC]) \<and>
   (\<exists>r'. frame_receiver example_formats
              (map arrives [fu_packet 100 0x93 [0xAA], fu_packet 101 0x13 [0xBB],
                 fu_packet 103 0x53 [0xCC]]) idle_reader = (Blocked_in_recvfrom, r') \<and>
          framesOut r' = [] \<and> hook_calls r' = [])"
proof -
  let ?s = "fu_packet 100 0x93 [0xAA]" and ?m = "fu_packet 101 0x13 [0xBB]"
  let ?e = "fu_packet 102 0x53 [0xCC]" and ?g = "fu_packet 103 0x53 [0xCC]"
  have fmt: "distinct_formats example_formats"
    by (simp add: distinct_formats_def example_formats_def)
  have act: "active idle_reader"
    by (simp add: active_def idle_reader_def)
  have queue: "recv_hook_fn idle_reader = None" "framesOut idle_reader = []"
      "hook_calls idle_reader = []"
    by (simp_all add: idle_reader_def)
  have kinds: "fu_START example_formats ?s" "\<forall>m \<in> set [?m]. fu_MIDDLE example_formats m"
      "fu_END example_formats ?e" "fu_END example_formats ?g"
    by (simp_all add: fu_START_def fu_MIDDLE_def fu_END_def is_fu_packet_def fu_packet_def
      example_formats_def rtp_ptype_def byte_at_def hevc_nal_type_def NAL_TYPE_FU_def
      fu_header_def fu_start_bit_def fu_end_bit_def)
  have seqs: "map rtp_seq [?s, ?m, ?e, ?g] = [100, 101, 102, 103]"
    by (simp add: rtp_seq_def ntohs_at_def byte_at_def fu_packet_def)
  have cons: "consecutive (map rtp_seq (?s # [?m]))"
    using seqs by simp
  have nxt: "rtp_seq ?e = last (map rtp_seq (?s # [?m])) + 1"
    and gap: "rtp_seq ?g \<noteq> last (map rtp_seq (?s # [?m])) + 1"
    using seqs by simp_all
  have bytes: "synthesized_nal_header (drop 12 ?s) @ concat (map fu_payload (?s # [?m] @ [?e]))
      = [0x26, 0x01, 0xAA, 0xBB, 0xCC]"
    by (simp add: synthesized_nal_header_def fu_nal_type_def fu_payload_def fu_packet_def byte_at_def)
  have one: "\<exists>r' f. frame_receiver example_formats (map arrives (?s # [?m] @ [?e])) idle_reader
        = (Blocked_in_recvfrom, r') \<and> hands_over idle_reader [Some f] r' \<and>
      payload_bytes f = synthesized_nal_header (drop 12 ?s) @ concat (map fu_payload (?s # [?m] @ [?e]))"
    using hevc_fu_train_reassembled [OF fmt act kinds(1,2,3) cons, of "[]" None] nxt
    by blast
  have none: "\<exists>r'. frame_receiver example_formats (map arrives (?s # [?m] @ [?g])) idle_reader
        = (Blocked_in_recvfrom, r') \<and> hands_over idle_reader [] r'"
    using hevc_fu_train_reassembled [OF fmt act kinds(1,2,4) cons, of "[]" None] gap
    by blast
  from one have one': "\<exists>r' f. frame_receiver example_formats (map arrives [?s, ?m, ?e]) idle_reader
        = (Blocked_in_recvfrom, r') \<and> framesOut r' = [Some f] \<and> hook_calls r' = [] \<and>
      payload_bytes f = [0x26, 0x01, 0xAA, 0xBB, 0xCC]"
    unfolding bytes by (simp add: hands_over_def queue)
  from none have none': "\<exists>r'. frame_receiver example_formats (map arrives [?s, ?m, ?g]) idle_reader
        = (Blocked_in_recvfrom, r') \<and> framesOut r' = [] \<and> hook_calls r' = []"
    by (simp add: hands_over_def queue)
  have mid: "fu_MIDDLE example_formats ?m"
    using kinds(2) by simp
  show ?thesis
    using fmt act kinds(1,3,4) mid seqs one' none' by blast
qed

end
